theory Spec2Isabelle
  imports Main "HOL-Library.AList" "HOL-Library.Sublist" "HOL-Library.Multiset"
begin

section \<open>Role check of the auth context (contexts/AuthContext.tsx)\<close>

text \<open>
  The \<open>User\<close> object held by the auth context. \<open>hasRole\<close> reads only \<open>role\<close>;
  the other fields are the ones the context itself fills in when it builds a user.
\<close>

record User =
  user_id :: string
  username :: string
  role :: string
  api_role :: string
  permissions :: "string list"
  created_at :: string

definition roleHierarchy :: "string list" where
  "roleHierarchy = [''OBSERVER'', ''ADMIN'', ''AUTHORITY'', ''SYSTEM_ADMIN'']"

text \<open>\<open>Array.prototype.indexOf\<close>: the first index holding the value, \<open>-1\<close> when there is none.\<close>

fun indexOf :: "'a list \<Rightarrow> 'a \<Rightarrow> int" where
  "indexOf [] x = - 1"
| "indexOf (y # ys) x =
     (if y = x then 0
      else (let i = indexOf ys x in if i < 0 then - 1 else i + 1))"

text \<open>
  \<open>hasRole\<close>: \<open>if (!user) return false\<close>, then the comparison of the two indices.
  The user state is \<open>User | null\<close>, here \<open>User option\<close>.
\<close>

definition hasRole :: "User option \<Rightarrow> string \<Rightarrow> bool" where
  "hasRole user r =
     (case user of
        None \<Rightarrow> False
      | Some u \<Rightarrow>
          (let userRoleIndex = indexOf roleHierarchy (role u);
               requiredRoleIndex = indexOf roleHierarchy r
           in userRoleIndex \<ge> requiredRoleIndex))"

section \<open>Task and thought aggregator (app/billing/page.tsx, InteractPage)\<close>

definition STAGE_NAMES :: "string list" where
  "STAGE_NAMES = [''thought_start'', ''snapshot_and_context'', ''dma_results'',
                  ''aspdma_result'', ''conscience_result'', ''action_result'']"

text \<open>
  The payload of a stream event is a JSON object. The aggregator reads two of its
  properties, each cast to a string by the source: \<open>task_description\<close> and
  \<open>action_executed\<close>; \<open>None\<close> is an absent property. Everything else the payload
  carries is kept as one opaque field, so that two payloads can differ outside the two
  properties.
\<close>

record payload =
  task_description :: "string option"
  action_executed :: "string option"
  other_fields :: string

text \<open>
  An element of \<open>pendingEventsRef.current\<close>. The identifiers come out of parsed JSON
  and may be missing, which is what the guard \<open>!thought_id || !task_id\<close> is for. A
  missing event type behaves as any text that is no stage name and is not told apart.
\<close>

record event =
  event_type :: string
  thought_id :: "string option"
  task_id :: "string option"
  data :: payload
  timestamp :: string

record ThoughtStage =
  stage_event_type :: string
  stage_completed :: bool
  stage_data :: payload
  stage_timestamp :: string

text \<open>
  \<open>stages\<close> is a JavaScript \<open>Map\<close>: keys are unique, \<open>set\<close> on a present key
  replaces the value where it stands and on a new key appends. That is
  \<^const>\<open>AList.update\<close> on an association list.
\<close>

record TrackedThought =
  thoughtId :: string
  stages :: "(string \<times> ThoughtStage) list"

record TrackedTask =
  taskId :: string
  description :: string
  completed :: bool
  firstTimestamp :: string
  thoughts :: "TrackedThought list"

text \<open>
  \<open>TrackedTask\<close> objects are shared: \<open>new Map(prev)\<close> copies the bindings of the map,
  not the objects they point to. So the objects live in a heap (the address of an object
  is its index) and the React state \<open>tasks\<close> binds each task id to an address.
\<close>

record store =
  heap :: "TrackedTask list"
  tasks :: "(string \<times> nat) list"

definition empty_store :: store where
  "empty_store = \<lparr>heap = [], tasks = []\<rparr>"

text \<open>\<open>String.prototype.includes\<close>: the pattern occurs at some position.\<close>

fun str_includes :: "string \<Rightarrow> string \<Rightarrow> bool" where
  "str_includes [] p = (p = [])"
| "str_includes (c # cs) p = (prefix p (c # cs) \<or> str_includes cs p)"

text \<open>JavaScript truthiness of an optional string: present and not empty.\<close>

fun truthy :: "string option \<Rightarrow> bool" where
  "truthy None = False"
| "truthy (Some s) = (s \<noteq> [])"

text \<open>The events that pass the guard \<open>if (!thought_id || !task_id) continue\<close>.\<close>

definition valid :: "event \<Rightarrow> bool" where
  "valid e = (truthy (thought_id e) \<and> truthy (task_id e))"

text \<open>
  The condition under which \<open>task.completed = true\<close> runs. With \<open>action_executed\<close>
  absent, \<open>?.includes\<close> gives \<open>undefined\<close> on both sides and the test fails.
\<close>

definition is_terminal :: "event \<Rightarrow> bool" where
  "is_terminal e =
     (event_type e = ''action_result'' \<and>
      (case action_executed (data e) of
         None \<Rightarrow> False
       | Some a \<Rightarrow> str_includes a ''task_complete'' \<or> str_includes a ''task_reject''))"

text \<open>
  The object literal of a new task. \<open>(data.task_description as string) || ""\<close> is
  the empty string for an absent description and the description itself otherwise.
\<close>

definition new_task :: "string \<Rightarrow> event \<Rightarrow> TrackedTask" where
  "new_task tid e =
     \<lparr>taskId = tid,
      description = (case task_description (data e) of
                       None \<Rightarrow> []
                     | Some d \<Rightarrow> d),
      completed = False,
      firstTimestamp = timestamp e,
      thoughts = []\<rparr>"

text \<open>The "Update stage" block, on the thought object it is given.\<close>

definition set_stage :: "event \<Rightarrow> TrackedThought \<Rightarrow> TrackedThought" where
  "set_stage e th =
     (if event_type e \<in> set STAGE_NAMES
      then th\<lparr>stages :=
             AList.update (event_type e)
               \<lparr>stage_event_type = event_type e, stage_completed = True,
                stage_data = data e, stage_timestamp = timestamp e\<rparr>
               (stages th)\<rparr>
      else th)"

text \<open>
  The "Find or create thought" block followed by a mutation \<open>f\<close> of the thought it
  yields: \<open>find\<close> stops at the first thought with the id, and that object is mutated
  where it stands in the array; when there is none, a thought with an empty stage map is
  pushed at the end and mutated.
\<close>

fun upsert_thought ::
  "string \<Rightarrow> (TrackedThought \<Rightarrow> TrackedThought) \<Rightarrow> TrackedThought list \<Rightarrow> TrackedThought list"
where
  "upsert_thought hid f [] = [f \<lparr>thoughtId = hid, stages = []\<rparr>]"
| "upsert_thought hid f (t # ts) =
     (if thoughtId t = hid then f t # ts else t # upsert_thought hid f ts)"

text \<open>Everything one event does to the task object it has looked up or created.\<close>

definition apply_to_task :: "string \<Rightarrow> event \<Rightarrow> TrackedTask \<Rightarrow> TrackedTask" where
  "apply_to_task hid e t =
     (let t1 = t\<lparr>thoughts := upsert_thought hid (set_stage e) (thoughts t)\<rparr>
      in if is_terminal e then t1\<lparr>completed := True\<rparr> else t1)"

text \<open>
  One turn of the loop \<open>for (const event of events)\<close> on the heap and on \<open>newTasks\<close>.
  A task id that \<open>newTasks\<close> does not bind gets a new object at a fresh address and
  \<open>newTasks.set\<close>; a bound one has its object mutated in the heap.
\<close>

definition processEvent :: "store \<Rightarrow> event \<Rightarrow> store" where
  "processEvent s e =
     (case (thought_id e, task_id e) of
        (Some hid, Some tid) \<Rightarrow>
          if hid = [] \<or> tid = [] then s
          else (case map_of (tasks s) tid of
                  None \<Rightarrow>
                    \<lparr>heap = heap s @ [apply_to_task hid e (new_task tid e)],
                     tasks = AList.update tid (length (heap s)) (tasks s)\<rparr>
                | Some a \<Rightarrow>
                    s\<lparr>heap := (heap s)[a := apply_to_task hid e (heap s ! a)]\<rparr>)
      | _ \<Rightarrow> s)"

text \<open>
  \<open>processBatchedEvents\<close> with the drained queue as its argument: nothing happens on
  an empty queue, otherwise the updater runs the loop from a copy of the bindings.
\<close>

definition processBatchedEvents :: "store \<Rightarrow> event list \<Rightarrow> store" where
  "processBatchedEvents s events =
     (if events = [] then s else foldl processEvent s events)"

text \<open>Reading a snapshot: the task object a task id is bound to.\<close>

definition lookup_task :: "store \<Rightarrow> string \<Rightarrow> TrackedTask option" where
  "lookup_task s tid =
     (case map_of (tasks s) tid of
        None \<Rightarrow> None
      | Some a \<Rightarrow> if a < length (heap s) then Some (heap s ! a) else None)"

text \<open>Every binding of the task map points to an object of the heap.\<close>

definition wf_store :: "store \<Rightarrow> bool" where
  "wf_store s = (\<forall>a \<in> snd ` set (tasks s). a < length (heap s))"

text \<open>
  The maps have an identity too. The React state \<open>tasks\<close> holds one \<open>Map\<close> object, and
  the updater given to \<open>setTasks\<close> builds another one with \<open>new Map(prev)\<close>, fills it and
  returns it, which makes it the new state. So the \<open>Map\<close> objects live in a heap of their
  own, next to the heap of the task objects, and the state is the address of a \<open>Map\<close>.
  The first state is the empty map of \<open>useState(() => new Map())\<close>.
\<close>

record snapshots =
  task_heap :: "TrackedTask list"
  map_heap :: "(string \<times> nat) list list"
  tasks_state :: nat

definition initial_snapshots :: snapshots where
  "initial_snapshots = \<lparr>task_heap = [], map_heap = [[]], tasks_state = 0\<rparr>"

text \<open>
  \<open>processBatchedEvents\<close> as a whole. With an empty queue it returns before
  \<open>setTasks\<close>. Otherwise the updater reads the bindings of the \<open>Map\<close> in the state,
  runs the loop on a copy of them (writing to the task objects as it goes), and the copy
  is stored as a new \<open>Map\<close> object whose address becomes the state. The \<open>Map\<close> that
  was the state before is never written.
\<close>

definition processBatchedEvents_state :: "snapshots \<Rightarrow> event list \<Rightarrow> snapshots" where
  "processBatchedEvents_state m events =
     (if events = [] then m
      else (let prev = map_heap m ! tasks_state m;
                s = processBatchedEvents \<lparr>heap = task_heap m, tasks = prev\<rparr> events
            in \<lparr>task_heap = heap s,
                map_heap = map_heap m @ [tasks s],
                tasks_state = length (map_heap m)\<rparr>))"

text \<open>The state holds the address of a \<open>Map\<close> that exists.\<close>

definition wf_snapshots :: "snapshots \<Rightarrow> bool" where
  "wf_snapshots m = (tasks_state m < length (map_heap m))"

text \<open>An event that fails the guard, for want of a thought id.\<close>

definition ex_skipped :: event where
  "ex_skipped =
     \<lparr>event_type = ''thought_start'', thought_id = None, task_id = Some ''T1'',
      data = \<lparr>task_description = None, action_executed = None, other_fields = ''f''\<rparr>,
      timestamp = ''2025-01-01T00:00:11Z''\<rparr>"

text \<open>Sample events of one task, used where a statement is run on concrete data.\<close>

definition ex_start :: event where
  "ex_start =
     \<lparr>event_type = ''thought_start'', thought_id = Some ''H1'', task_id = Some ''T1'',
      data = \<lparr>task_description = None, action_executed = None, other_fields = ''a''\<rparr>,
      timestamp = ''2025-01-01T00:00:00Z''\<rparr>"

definition ex_done :: event where
  "ex_done =
     \<lparr>event_type = ''action_result'', thought_id = Some ''H1'', task_id = Some ''T1'',
      data = \<lparr>task_description = Some ''say hello'',
              action_executed = Some ''HandlerActionType.task_complete'',
              other_fields = ''b''\<rparr>,
      timestamp = ''2025-01-01T00:00:05Z''\<rparr>"

definition ex_other :: event where
  "ex_other =
     \<lparr>event_type = ''dma_results'', thought_id = Some ''H9'', task_id = Some ''T2'',
      data = \<lparr>task_description = Some ''other task'', action_executed = None,
              other_fields = ''c''\<rparr>,
      timestamp = ''2025-01-01T00:00:07Z''\<rparr>"

definition ex_unknown :: event where
  "ex_unknown =
     \<lparr>event_type = ''heartbeat'', thought_id = Some ''H1'', task_id = Some ''T1'',
      data = \<lparr>task_description = None, action_executed = None, other_fields = ''d''\<rparr>,
      timestamp = ''2025-01-01T00:00:03Z''\<rparr>"

definition ex_restart :: event where
  "ex_restart =
     \<lparr>event_type = ''thought_start'', thought_id = Some ''H1'', task_id = Some ''T1'',
      data = \<lparr>task_description = None, action_executed = None, other_fields = ''e''\<rparr>,
      timestamp = ''2025-01-01T00:00:09Z''\<rparr>"

text \<open>
  The description of a task in the words of the specification: the
  \<open>task_description\<close> of the earliest event of the task that carries one.
\<close>

fun spec_first_description :: "string \<Rightarrow> event list \<Rightarrow> string option" where
  "spec_first_description tid [] = None"
| "spec_first_description tid (e # es) =
     (if task_id e = Some tid
      then (case task_description (data e) of
              Some d \<Rightarrow> Some d
            | None \<Rightarrow> spec_first_description tid es)
      else spec_first_description tid es)"

text \<open>Reading a snapshot further down: the thought of a task that \<open>find\<close> yields.\<close>

definition lookup_thought :: "store \<Rightarrow> string \<Rightarrow> string \<Rightarrow> TrackedThought option" where
  "lookup_thought s tid hid =
     (case lookup_task s tid of
        None \<Rightarrow> None
      | Some t \<Rightarrow> find (\<lambda>th. thoughtId th = hid) (thoughts t))"

text \<open>The keys of the stage map of a thought, none for a thought that does not exist.\<close>

definition stage_names :: "TrackedThought option \<Rightarrow> string set" where
  "stage_names th = (case th of None \<Rightarrow> {} | Some t \<Rightarrow> fst ` set (stages t))"




text \<open>
  What an event that has been applied leaves behind, whatever came after it: its task is
  bound, the task has its thought, the stage map of the thought has its stage name when
  the name is a known one, and the task is completed when the event is a terminal one.
  An event that fails the guard leaves nothing.
\<close>

definition seen_in_task :: "event \<Rightarrow> string \<Rightarrow> TrackedTask \<Rightarrow> bool" where
  "seen_in_task e hid t =
     (case find (\<lambda>th. thoughtId th = hid) (thoughts t) of
        None \<Rightarrow> False
      | Some th \<Rightarrow>
          (event_type e \<in> set STAGE_NAMES \<longrightarrow> event_type e \<in> fst ` set (stages th)) \<and>
          (is_terminal e \<longrightarrow> completed t))"

definition seen :: "event \<Rightarrow> store \<Rightarrow> bool" where
  "seen e s =
     (case (thought_id e, task_id e) of
        (Some hid, Some tid) \<Rightarrow>
          hid = [] \<or> tid = [] \<or>
          (case lookup_task s tid of None \<Rightarrow> False | Some t \<Rightarrow> seen_in_task e hid t)
      | _ \<Rightarrow> True)"

section \<open>Proxy client (lib/ciris-proxy.ts)\<close>

text \<open>
  \<open>Number.prototype.toString\<close> on a non-negative integer: its decimal digits, most
  significant first.
\<close>

definition digit_char :: "nat \<Rightarrow> char" where
  "digit_char d = ''0123456789'' ! d"

fun decimal :: "nat \<Rightarrow> string" where
  "decimal n = (if n < 10 then [digit_char n] else decimal (n div 10) @ [digit_char (n mod 10)])"

declare decimal.simps [simp del]

datatype chat_role = System | UserRole | Assistant

record ChatMessage =
  msg_role :: chat_role
  content :: string

text \<open>
  The \<open>metadata\<close> object of a request: \<open>interaction_id\<close>, and its other properties
  as a list of names and values. An \<open>interaction_id\<close> can be missing from an object
  built outside the type checker, which is what the test \<open>!request.metadata?.interaction_id\<close>
  allows for.
\<close>

record metadata =
  interaction_id :: "string option"
  other_metadata :: "(string \<times> string) list"

record ChatRequest =
  model :: "string option"
  messages :: "ChatMessage list"
  temperature :: "string option"
  max_tokens :: "nat option"
  stream :: "bool option"
  metadata :: "metadata option"

text \<open>
  \<open>generateInteractionId\<close>. Its two inputs are the clock \<open>Date.now()\<close> and the text
  \<open>Math.random().toString(36)\<close>; \<open>substring(2, 11)\<close> keeps the characters at
  positions 2 to 10.
\<close>

definition generateInteractionId :: "nat \<Rightarrow> string \<Rightarrow> string" where
  "generateInteractionId now rnd36 =
     ''int_'' @ decimal now @ ''_'' @ take (11 - 2) (drop 2 rnd36)"

text \<open>\<open>request.metadata?.interaction_id\<close>.\<close>

definition supplied_interaction_id :: "ChatRequest \<Rightarrow> string option" where
  "supplied_interaction_id request =
     (case metadata request of None \<Rightarrow> None | Some m \<Rightarrow> interaction_id m)"

text \<open>
  The block that opens both \<open>chat\<close> and \<open>chatStream\<close>. The spread
  \<open>...request.metadata\<close> copies the other properties (none when there is no metadata)
  and \<open>interaction_id\<close> is set after it.
\<close>

definition ensure_interaction_id :: "nat \<Rightarrow> string \<Rightarrow> ChatRequest \<Rightarrow> ChatRequest" where
  "ensure_interaction_id now rnd36 request =
     (if \<not> truthy (supplied_interaction_id request)
      then request\<lparr>metadata :=
             Some \<lparr>interaction_id = Some (generateInteractionId now rnd36),
                   other_metadata = (case metadata request of
                                       None \<Rightarrow> []
                                     | Some m \<Rightarrow> other_metadata m)\<rparr>\<rparr>
      else request)"

text \<open>
  The object each method hands to \<open>JSON.stringify\<close> as the body of its POST:
  \<open>request\<close> for \<open>chat\<close>, \<open>{...request, stream: true}\<close> for \<open>chatStream\<close>.
\<close>

definition chat_body :: "nat \<Rightarrow> string \<Rightarrow> ChatRequest \<Rightarrow> ChatRequest" where
  "chat_body now rnd36 request = ensure_interaction_id now rnd36 request"


text \<open>
  The response of the proxy as the two methods read it, and \<open>chat\<close> itself: the POST
  of the body, an error for a response that is not ok, the parsed response otherwise.
\<close>

record proxy_response =
  response_ok :: bool
  response_status :: nat
  response_text :: string

datatype proxy_error = ProxyError nat string

definition chat ::
  "(ChatRequest \<Rightarrow> proxy_response) \<Rightarrow> nat \<Rightarrow> string \<Rightarrow> ChatRequest \<Rightarrow> proxy_error + string" where
  "chat fetch now rnd36 request =
     (let response = fetch (chat_body now rnd36 request)
      in if \<not> response_ok response
         then Inl (ProxyError (response_status response) (response_text response))
         else Inr (response_text response))"



section \<open>Native sign-in and the setup redirect (contexts/AuthContext.tsx)\<close>

text \<open>\<open>a || b\<close> on two values that are a string or \<open>null\<close>.\<close>

definition js_or :: "string option \<Rightarrow> string option \<Rightarrow> string option" where
  "js_or a b = (if truthy a then a else b)"

text \<open>
  \<open>parseInt(text, 10)\<close>: white space is skipped, a sign is read, then the longest run
  of decimal digits; with no digit the result is \<open>NaN\<close>, here \<open>None\<close>. Characters
  are taken one per \<open>char\<close>, and the value is exact, as it is in the source below
  \<open>2^53\<close>.
\<close>

definition is_space :: "char \<Rightarrow> bool" where
  "is_space c = (of_char c \<in> {9, 10, 11, 12, 13, 32, 160 :: nat})"

definition digit_val :: "char \<Rightarrow> nat option" where
  "digit_val c =
     (let code = (of_char c :: nat)
      in if 48 \<le> code \<and> code \<le> 57 then Some (code - 48) else None)"

fun digits_value :: "nat \<Rightarrow> string \<Rightarrow> nat" where
  "digits_value acc [] = acc"
| "digits_value acc (c # cs) =
     (case digit_val c of None \<Rightarrow> acc | Some d \<Rightarrow> digits_value (10 * acc + d) cs)"

definition parseInt :: "string \<Rightarrow> int option" where
  "parseInt str =
     (let s = dropWhile is_space str;
          negative = (case s of c # _ \<Rightarrow> c = CHR ''-'' | [] \<Rightarrow> False);
          body = (case s of c # cs \<Rightarrow> if c = CHR ''-'' \<or> c = CHR ''+'' then cs else s | [] \<Rightarrow> [])
      in case body of
           [] \<Rightarrow> None
         | c # _ \<Rightarrow>
             (case digit_val c of
                None \<Rightarrow> None
              | Some _ \<Rightarrow>
                  Some ((if negative then - 1 else 1) * int (digits_value 0 body))))"

text \<open>
  What one call of \<open>checkNativeAuth\<close> can read and write: the two storages, the React
  state \<open>user\<close> and \<open>loading\<close>, the configuration last given to the SDK, and the
  addresses assigned to \<open>window.location.href\<close>, oldest first.
\<close>

record auth_state =
  localStorage :: "string \<rightharpoonup> string"
  sessionStorage :: "string \<rightharpoonup> string"
  auth_user :: "User option"
  loading :: bool
  sdk_config :: "(string \<times> string option) option"
  navigations :: "string list"

text \<open>
  The properties of the parsed \<open>ciris_native_auth\<close> object that the function reads.
\<close>

record auth_data =
  googleUserId :: "string option"
  displayName :: "string option"
  email :: "string option"

text \<open>
  The answer of \<open>/v1/setup/status\<close> as \<open>checkSetupStatusFromAPI\<close> looks at it: the
  request or the parsing of its body threw; the status was not ok; or there is a body,
  of which the function reads \<open>setup_required\<close> (a boolean, or anything else as
  \<open>None\<close>) and whether one of the four completion properties is \<open>true\<close>.
\<close>

datatype setup_response = FetchFailed | HttpStatus nat | SetupJson "bool option" bool

text \<open>
  What is outside the function during one call: the clock at the guard and at the
  redirect, the path of the page, \<open>JSON.parse\<close> on the stored native sign-in data
  (\<open>None\<close> when it throws), the outcome of the login with the default credentials (the
  user and the access token, \<open>None\<close> when it throws), \<open>cirisClient.isAuthenticated()\<close>,
  the setup status, and the text of \<open>new Date().toISOString()\<close>.
\<close>

record auth_env =
  env_now :: nat
  env_redirect_now :: nat
  env_pathname :: string
  env_parse_auth :: "string \<Rightarrow> auth_data option"
  env_login :: "(User \<times> string option) option"
  env_sdk_authenticated :: bool
  env_setup_status :: setup_response
  env_iso_now :: string

definition setItem :: "string \<Rightarrow> string \<Rightarrow> (string \<rightharpoonup> string) \<Rightarrow> (string \<rightharpoonup> string)" where
  "setItem k v storage = storage(k \<mapsto> v)"

definition removeItem :: "string \<Rightarrow> (string \<rightharpoonup> string) \<Rightarrow> (string \<rightharpoonup> string)" where
  "removeItem k storage = storage(k := None)"

definition doSetupRedirect :: "nat \<Rightarrow> auth_state \<Rightarrow> auth_state" where
  "doSetupRedirect t s =
     s\<lparr>sessionStorage :=
         setItem ''ciris_last_redirect_time'' (decimal t)
           (setItem ''ciris_redirect_in_progress'' ''true'' (sessionStorage s)),
       navigations := navigations s @ [''/setup'']\<rparr>"

definition checkSetupStatusFromAPI :: "auth_env \<Rightarrow> auth_state \<Rightarrow> bool \<times> auth_state" where
  "checkSetupStatusFromAPI env s =
     (let localFlag = localStorage s ''ciris_show_setup''
      in case env_setup_status env of
           SetupJson setupRequired isComplete \<Rightarrow>
             if setupRequired = Some False \<or> isComplete
             then (False, s\<lparr>localStorage := setItem ''ciris_show_setup'' ''false'' (localStorage s)\<rparr>)
             else if setupRequired = Some True then (True, s)
             else (True, s)
         | _ \<Rightarrow> (localFlag = Some ''true'', s))"

text \<open>
  The test that opens \<open>checkNativeAuth\<close>: the redirect flag is set, or the stored time
  of the last redirect (\<open>"0"\<close> when there is none) is less than 5000 ms before now. A
  comparison with \<open>NaN\<close> is false.
\<close>

definition redirect_guard :: "nat \<Rightarrow> auth_state \<Rightarrow> bool" where
  "redirect_guard now s =
     (let redirectInProgress = (sessionStorage s ''ciris_redirect_in_progress'' = Some ''true'');
          lastRedirectTime =
            parseInt (case js_or (sessionStorage s ''ciris_last_redirect_time'') (Some ''0'') of
                        None \<Rightarrow> [] | Some t \<Rightarrow> t)
      in redirectInProgress \<or>
         (case lastRedirectTime of None \<Rightarrow> False | Some t \<Rightarrow> int now - t < 5000))"

text \<open>
  The block that follows every sign-in: when the setup flag is set and the page is not
  the setup page, ask the API, and redirect when setup is needed. Only the first of its
  three copies clears the flag when the API says setup is complete.
\<close>

definition redirect_if_setup_needed ::
  "bool \<Rightarrow> auth_env \<Rightarrow> string option \<Rightarrow> bool \<Rightarrow> auth_state \<Rightarrow> auth_state" where
  "redirect_if_setup_needed clears env authMethod showSetupFlag s =
     (if showSetupFlag \<and> \<not> prefix ''/setup'' (env_pathname env)
      then (case checkSetupStatusFromAPI env s of
              (setupNeeded, s1) \<Rightarrow>
                if setupNeeded
                then doSetupRedirect (env_redirect_now env)
                       (s1\<lparr>localStorage :=
                            setItem ''ciris_native_llm_mode''
                              (if authMethod = Some ''google'' then ''ciris_proxy'' else ''custom'')
                              (localStorage s1)\<rparr>)
                else if clears
                     then s1\<lparr>localStorage := setItem ''ciris_show_setup'' ''false'' (localStorage s1)\<rparr>
                     else s1)
      else s)"

definition or_default :: "string option \<Rightarrow> string \<Rightarrow> string" where
  "or_default a d = (case a of None \<Rightarrow> d | Some v \<Rightarrow> if v = [] then d else v)"

text \<open>The second half of \<open>checkNativeAuth\<close>, from "Skip if already authenticated" on.\<close>

definition login_with_defaults ::
  "auth_env \<Rightarrow> string \<Rightarrow> string option \<Rightarrow> bool \<Rightarrow> auth_state \<Rightarrow> bool \<times> auth_state" where
  "login_with_defaults env nativeAuthData authMethod showSetupFlag s =
     (if env_sdk_authenticated env then (True, s)
      else (case env_parse_auth env nativeAuthData of
              None \<Rightarrow> (False, s)
            | Some authData \<Rightarrow>
                (let s1 = s\<lparr>localStorage := setItem ''selectedAgentId'' ''datum'' (localStorage s),
                            sdk_config := Some (''datum'', None)\<rparr>
                 in case env_login env of
                      Some (u, token) \<Rightarrow>
                        (let s2 = (if truthy token
                                   then s1\<lparr>sdk_config := Some (''datum'', token),
                                           localStorage :=
                                             setItem ''ciris_native_auth_complete'' ''true''
                                               (setItem ''ciris_native_auth_token''
                                                  (or_default token []) (localStorage s1))\<rparr>
                                   else s1);
                             s3 = s2\<lparr>auth_user := Some u, loading := False\<rparr>
                         in (True, redirect_if_setup_needed False env authMethod showSetupFlag s3))
                    | None \<Rightarrow>
                        (let mockUser =
                               \<lparr>user_id = or_default (googleUserId authData) ''native_user'',
                                username = or_default (displayName authData) ''Native User'',
                                role = ''ADMIN'', api_role = ''ADMIN'',
                                permissions = [''read'', ''write'', ''admin''],
                                created_at = env_iso_now env\<rparr>;
                             s2 = s1\<lparr>auth_user := Some mockUser, loading := False,
                                     localStorage :=
                                       setItem ''ciris_native_auth_complete'' ''true'' (localStorage s1)\<rparr>
                         in (True, redirect_if_setup_needed False env authMethod showSetupFlag s2)))))"

definition checkNativeAuth :: "auth_env \<Rightarrow> auth_state \<Rightarrow> bool \<times> auth_state" where
  "checkNativeAuth env s =
     (let isNativeApp = (localStorage s ''isNativeApp'' = Some ''true'');
          nativeAuthData = localStorage s ''ciris_native_auth'';
          authMethod = localStorage s ''ciris_auth_method'';
          showSetupFlag = (localStorage s ''ciris_show_setup'' = Some ''true'');
          injectedToken = js_or (localStorage s ''ciris_access_token'') (localStorage s ''access_token'');
          hasInjectedToken = truthy injectedToken
      in if redirect_guard (env_now env) s then (True, s)
         else if \<not> isNativeApp \<or> \<not> truthy nativeAuthData then (False, s)
         else
           (let authJson = or_default nativeAuthData [];
                nativeAuthComplete = (localStorage s ''ciris_native_auth_complete'' = Some ''true'');
                savedToken = localStorage s ''ciris_native_auth_token'';
                tokenToUse = js_or injectedToken savedToken
            in if (nativeAuthComplete \<or> hasInjectedToken) \<and> truthy tokenToUse
               then
                 (let s1 = s\<lparr>localStorage := setItem ''selectedAgentId'' ''datum'' (localStorage s),
                             sdk_config := Some (''datum'', tokenToUse)\<rparr>;
                      s2 = (if hasInjectedToken
                            then s1\<lparr>localStorage :=
                                      setItem ''ciris_native_auth_complete'' ''true''
                                        (setItem ''ciris_native_auth_token''
                                           (or_default injectedToken []) (localStorage s1))\<rparr>
                            else s1)
                  in case env_parse_auth env authJson of
                       Some authData \<Rightarrow>
                         (let restoredUser =
                                \<lparr>user_id = or_default (googleUserId authData) ''admin'',
                                 username = or_default (js_or (displayName authData) (email authData))
                                              ''admin'',
                                 role = ''SYSTEM_ADMIN'', api_role = ''ADMIN'',
                                 permissions = [''read'', ''write'', ''admin''],
                                 created_at = env_iso_now env\<rparr>;
                              s3 = s2\<lparr>auth_user := Some restoredUser, loading := False\<rparr>
                          in (True, redirect_if_setup_needed True env authMethod showSetupFlag s3))
                     | None \<Rightarrow>
                         login_with_defaults env authJson authMethod showSetupFlag
                           (s2\<lparr>localStorage :=
                                 removeItem ''ciris_native_auth_token''
                                   (removeItem ''ciris_native_auth_complete'' (localStorage s2))\<rparr>))
               else login_with_defaults env authJson authMethod showSetupFlag s))"

text \<open>
  The setup page, once it is shown, removes the redirect flag (app/setup/page.tsx, the
  first lines of its loading effect); the stored time stays.
\<close>

definition setup_page_mounted :: "auth_state \<Rightarrow> auth_state" where
  "setup_page_mounted s =
     s\<lparr>sessionStorage :=
         removeItem ''ciris_native_auth_event_handled''
           (removeItem ''ciris_redirect_in_progress'' (sessionStorage s))\<rparr>"

text \<open>
  Two observations on a call, used to say what it did about navigation: the addresses
  assigned so far together with the session storage, and the relation "the call left
  both as they were, or it appended one assignment of \<open>/setup\<close> and stored the redirect
  flag and the time \<open>t\<close>".
\<close>

definition nav_trace :: "auth_state \<Rightarrow> string list \<times> (string \<rightharpoonup> string)" where
  "nav_trace s = (navigations s, sessionStorage s)"

definition quiet_or_redirected ::
  "nat \<Rightarrow> string list \<times> (string \<rightharpoonup> string) \<Rightarrow> auth_state \<Rightarrow> bool" where
  "quiet_or_redirected t tr s' \<longleftrightarrow>
     nav_trace s' = tr \<or>
     (navigations s' = fst tr @ [''/setup''] \<and>
      sessionStorage s' ''ciris_redirect_in_progress'' = Some ''true'' \<and>
      sessionStorage s' ''ciris_last_redirect_time'' = Some (decimal t))"

definition ex_auth_state :: auth_state where
  "ex_auth_state =
     \<lparr>localStorage = [''isNativeApp'' \<mapsto> ''true'', ''ciris_native_auth'' \<mapsto> ''{}'',
                      ''ciris_show_setup'' \<mapsto> ''true''],
      sessionStorage = Map.empty, auth_user = None, loading = True, sdk_config = None,
      navigations = []\<rparr>"

definition ex_auth_env :: "nat \<Rightarrow> auth_env" where
  "ex_auth_env t =
     \<lparr>env_now = t, env_redirect_now = t + 150, env_pathname = ''/'',
      env_parse_auth = (\<lambda>_. Some \<lparr>googleUserId = None, displayName = None, email = None\<rparr>),
      env_login = None, env_sdk_authenticated = False,
      env_setup_status = SetupJson (Some True) False, env_iso_now = ''2025-01-01T00:00:00Z''\<rparr>"

section \<open>Reasoning-stream reader (app/billing/page.tsx and app/page.tsx, connectStream)\<close>

text \<open>
  Text (\<open>ustring\<close>) is a list of Unicode code points and a byte is a \<open>char\<close>. The operations the
  reader applies to text (splitting at line feeds, a test for an ASCII prefix, dropping
  that prefix, trimming white space) give the same result on code points as on the
  UTF-16 units of a JavaScript string.
\<close>

type_synonym ustring = "nat list"

definition lit :: "string \<Rightarrow> ustring" where
  "lit s = map of_char s"

subsection \<open>The decoder\<close>

text \<open>
  \<open>new TextDecoder()\<close> is the UTF-8 decoder of the platform, used with
  \<open>{stream: true}\<close>: its state survives from one call of \<open>decode\<close> to the next. The
  state and the handler follow the Encoding Standard: a code point under construction,
  the bytes seen and needed, the bounds for the next byte, and the flag that says the
  byte order mark has been dealt with. A malformed sequence yields U+FFFD, and the byte
  that broke it is read again from the initial state.
\<close>

record decoder =
  code_point :: nat
  bytes_seen :: nat
  bytes_needed :: nat
  lower_boundary :: nat
  upper_boundary :: nat
  bom_seen :: bool

definition new_decoder :: decoder where
  "new_decoder =
     \<lparr>code_point = 0, bytes_seen = 0, bytes_needed = 0,
      lower_boundary = 128, upper_boundary = 191, bom_seen = False\<rparr>"

definition reset_sequence :: "decoder \<Rightarrow> decoder" where
  "reset_sequence d =
     d\<lparr>code_point := 0, bytes_seen := 0, bytes_needed := 0,
       lower_boundary := 128, upper_boundary := 191\<rparr>"

text \<open>A byte read with no sequence under way.\<close>

definition lead_byte :: "decoder \<Rightarrow> nat \<Rightarrow> decoder \<times> ustring" where
  "lead_byte d b =
     (if b \<le> 127 then (d, [b])
      else if 194 \<le> b \<and> b \<le> 223
        then (d\<lparr>bytes_needed := 1, code_point := b mod 32\<rparr>, [])
      else if 224 \<le> b \<and> b \<le> 239
        then (d\<lparr>lower_boundary := (if b = 224 then 160 else lower_boundary d),
                upper_boundary := (if b = 237 then 159 else upper_boundary d),
                bytes_needed := 2, code_point := b mod 16\<rparr>, [])
      else if 240 \<le> b \<and> b \<le> 244
        then (d\<lparr>lower_boundary := (if b = 240 then 144 else lower_boundary d),
                upper_boundary := (if b = 244 then 143 else upper_boundary d),
                bytes_needed := 3, code_point := b mod 8\<rparr>, [])
      else (d, [65533]))"

definition utf8_handler :: "decoder \<Rightarrow> nat \<Rightarrow> decoder \<times> ustring" where
  "utf8_handler d b =
     (if bytes_needed d = 0 then lead_byte d b
      else if b < lower_boundary d \<or> upper_boundary d < b
        then (case lead_byte (reset_sequence d) b of (d', out) \<Rightarrow> (d', 65533 # out))
      else
        (let cp = code_point d * 64 + b mod 64;
             seen = bytes_seen d + 1
         in if seen \<noteq> bytes_needed d
            then (d\<lparr>lower_boundary := 128, upper_boundary := 191,
                    code_point := cp, bytes_seen := seen\<rparr>, [])
            else (reset_sequence d, [cp])))"

text \<open>The first code point of the stream is dropped when it is the byte order mark.\<close>

fun strip_bom :: "decoder \<Rightarrow> ustring \<Rightarrow> decoder \<times> ustring" where
  "strip_bom d [] = (d, [])"
| "strip_bom d (c # cs) =
     (if bom_seen d then (d, c # cs)
      else (d\<lparr>bom_seen := True\<rparr>, if c = 65279 then cs else c # cs))"

definition decode_byte :: "decoder \<Rightarrow> char \<Rightarrow> decoder \<times> ustring" where
  "decode_byte d b = (case utf8_handler d (of_char b) of (d', out) \<Rightarrow> strip_bom d' out)"

text \<open>\<open>decoder.decode(value, {stream: true})\<close> on one chunk.\<close>

fun decode :: "decoder \<Rightarrow> string \<Rightarrow> decoder \<times> ustring" where
  "decode d [] = (d, [])"
| "decode d (b # bs) =
     (case decode_byte d b of (d1, out1) \<Rightarrow>
        (case decode d1 bs of (d2, out2) \<Rightarrow> (d2, out1 @ out2)))"

subsection \<open>Lines\<close>

text \<open>
  \<open>split("\n")\<close>: the pieces between line feeds; there is always at least one piece,
  and the last one is what follows the last line feed.
\<close>

fun split_nl :: "ustring \<Rightarrow> ustring list" where
  "split_nl [] = [[]]"
| "split_nl (c # cs) =
     (if c = 10 then [] # split_nl cs
      else (case split_nl cs of [] \<Rightarrow> [[c]] | l # ls \<Rightarrow> (c # l) # ls))"

text \<open>\<open>String.prototype.trim\<close>: white space and line terminators go from both ends.\<close>

definition is_white :: "nat \<Rightarrow> bool" where
  "is_white c =
     (c \<in> {9, 10, 11, 12, 13, 32, 160, 5760, 8232, 8233, 8239, 8287, 12288, 65279} \<or>
      (8192 \<le> c \<and> c \<le> 8202))"

definition trim :: "ustring \<Rightarrow> ustring" where
  "trim t = rev (dropWhile is_white (rev (dropWhile is_white t)))"

subsection \<open>The read loop of the task page\<close>

text \<open>
  The variables of \<open>connectStream\<close> that live across reads, and \<open>sink\<close>, the state
  that the calls of \<open>processSSEEvent\<close> act on. \<open>processSSEEvent\<close> is a parameter of
  the loop: a function from the state before the call, the event type and the data to
  the state after it.
\<close>

record 'q reader =
  dec :: decoder
  buffer :: ustring
  eventType :: ustring
  eventData :: ustring
  sink :: 'q

definition new_reader :: "'q \<Rightarrow> 'q reader" where
  "new_reader q = \<lparr>dec = new_decoder, buffer = [], eventType = [], eventData = [], sink = q\<rparr>"

text \<open>The body of \<open>for (const line of lines)\<close>.\<close>

definition handle_line :: "('q \<Rightarrow> ustring \<Rightarrow> ustring \<Rightarrow> 'q) \<Rightarrow> 'q reader \<Rightarrow> ustring \<Rightarrow> 'q reader" where
  "handle_line processSSEEvent r line =
     (if prefix (lit ''event:'') line then
        (let r1 = (if eventType r \<noteq> [] \<and> eventData r \<noteq> []
                   then r\<lparr>sink := processSSEEvent (sink r) (eventType r) (eventData r)\<rparr>
                   else r)
         in r1\<lparr>eventType := trim (drop 6 line), eventData := []\<rparr>)
      else if prefix (lit ''data:'') line then
        (let newData = trim (drop 5 line)
         in r\<lparr>eventData := (if eventData r \<noteq> [] then eventData r @ [10] @ newData else newData)\<rparr>)
      else if line = [] then
        (if eventType r \<noteq> [] \<and> eventData r \<noteq> []
         then r\<lparr>sink := processSSEEvent (sink r) (eventType r) (eventData r),
                eventType := [], eventData := []\<rparr>
         else r)
      else r)"

text \<open>
  What the loop does with the text of one read: append it to the buffer, split, keep
  the last piece as the new buffer, handle the other pieces in order.
\<close>

definition feed_text :: "('q \<Rightarrow> ustring \<Rightarrow> ustring \<Rightarrow> 'q) \<Rightarrow> 'q reader \<Rightarrow> ustring \<Rightarrow> 'q reader" where
  "feed_text processSSEEvent r t =
     (let lines = split_nl (buffer r @ t)
      in foldl (handle_line processSSEEvent) (r\<lparr>buffer := last lines\<rparr>) (butlast lines))"

text \<open>One turn of \<open>while (true)\<close> with the chunk that \<open>reader.read()\<close> delivered.\<close>

definition read_chunk :: "('q \<Rightarrow> ustring \<Rightarrow> ustring \<Rightarrow> 'q) \<Rightarrow> 'q reader \<Rightarrow> string \<Rightarrow> 'q reader" where
  "read_chunk processSSEEvent r chunk =
     (case decode (dec r) chunk of (d, t) \<Rightarrow> feed_text processSSEEvent (r\<lparr>dec := d\<rparr>) t)"

text \<open>
  The loop over the chunks of a stream, up to the read that reports \<open>done\<close>.
\<close>

definition read_loop :: "('q \<Rightarrow> ustring \<Rightarrow> ustring \<Rightarrow> 'q) \<Rightarrow> 'q reader \<Rightarrow> string list \<Rightarrow> 'q reader" where
  "read_loop processSSEEvent r chunks = foldl (read_chunk processSSEEvent) r chunks"

text \<open>The part of the reader state that decides how the rest of the stream is cut.\<close>

definition framing :: "'q reader \<Rightarrow> decoder \<times> ustring \<times> ustring \<times> ustring" where
  "framing r = (dec r, buffer r, eventType r, eventData r)"

text \<open>
  A \<open>processSSEEvent\<close> that only records its calls: the records the reader emits.
\<close>

definition record_call :: "(ustring \<times> ustring) list \<Rightarrow> ustring \<Rightarrow> ustring \<Rightarrow> (ustring \<times> ustring) list" where
  "record_call calls ty dat = calls @ [(ty, dat)]"

text \<open>
  The bytes \<open>event: step_update\<close>, line feed, \<open>data: {"a":1}\<close>, line feed, line
  feed; \<open>CHR 0x22\<close> is the double quote.
\<close>

definition ex_payload :: string where
  "ex_payload = ''{'' @ [CHR 0x22] @ ''a'' @ [CHR 0x22] @ '':1}''"

definition ex_stream :: string where
  "ex_stream = ''event: step_update'' @ [CHR 0x0A] @ ''data: '' @ ex_payload @ [CHR 0x0A, CHR 0x0A]"
subsection \<open>What the task page does with a record\<close>

text \<open>
  A parsed JSON value. \<open>JSON.parse\<close> is the parser of the platform and a parameter of
  the model: it maps a text to a value or throws \<open>SyntaxError\<close>.
\<close>

datatype json =
  JNull | JBool bool | JNum int | JStr ustring | JArr "json list" | JObj "(ustring \<times> json) list"

datatype js_error = SyntaxError | TypeError

text \<open>
  Reading a property by name from a value that is not \<open>null\<close>: objects have the
  properties they were parsed with, and the names read here (\<open>events\<close>,
  \<open>event_type\<close>, \<open>thought_id\<close>, \<open>task_id\<close>, \<open>timestamp\<close>) are \<open>undefined\<close> on
  numbers, booleans, strings and arrays.
\<close>

fun get_prop :: "json \<Rightarrow> ustring \<Rightarrow> json option" where
  "get_prop (JObj kvs) k = map_of kvs k"
| "get_prop _ k = None"

fun js_truthy :: "json option \<Rightarrow> bool" where
  "js_truthy None = False"
| "js_truthy (Some JNull) = False"
| "js_truthy (Some (JBool b)) = b"
| "js_truthy (Some (JNum n)) = (n \<noteq> 0)"
| "js_truthy (Some (JStr s)) = (s \<noteq> [])"
| "js_truthy (Some (JArr _)) = True"
| "js_truthy (Some (JObj _)) = True"

text \<open>
  The object handed to \<open>queueEvent\<close>, with the values as they come out of the parser.
  The record \<open>event\<close> of the aggregator is this object under the types that the
  source declares for the queue: strings for the type, the two ids and the time.
\<close>

record queued_event =
  q_event_type :: "json option"
  q_thought_id :: "json option"
  q_task_id :: "json option"
  q_data :: json
  q_timestamp :: json

definition make_queued :: "ustring \<Rightarrow> json \<Rightarrow> queued_event" where
  "make_queued now ev =
     \<lparr>q_event_type = get_prop ev (lit ''event_type''),
      q_thought_id = get_prop ev (lit ''thought_id''),
      q_task_id = get_prop ev (lit ''task_id''),
      q_data = ev,
      q_timestamp = (case get_prop ev (lit ''timestamp'') of
                       None \<Rightarrow> JStr now
                     | Some t \<Rightarrow> if js_truthy (Some t) then t else JStr now)\<rparr>"

text \<open>
  The loop \<open>for (const event of update.events)\<close> on the pending queue. Reading a
  property of \<open>null\<close> throws; the events queued before it stay queued. The result is the
  queue and the error thrown, if any.
\<close>

fun queue_events ::
  "ustring \<Rightarrow> json list \<Rightarrow> queued_event list \<Rightarrow> queued_event list \<times> js_error option" where
  "queue_events now [] q = (q, None)"
| "queue_events now (ev # evs) q =
     (if ev = JNull then (q, Some TypeError)
      else queue_events now evs (q @ [make_queued now ev]))"

text \<open>The \<open>try\<close> block of \<open>processSSEEvent\<close>: the queue it leaves and what it throws.\<close>

definition processSSEEvent_try ::
  "(ustring \<Rightarrow> js_error + json) \<Rightarrow> ustring \<Rightarrow> queued_event list \<Rightarrow> ustring \<Rightarrow>
   queued_event list \<times> js_error option" where
  "processSSEEvent_try parse now q dat =
     (case parse dat of
        Inl e \<Rightarrow> (q, Some e)
      | Inr update \<Rightarrow>
          if update = JNull then (q, Some TypeError)
          else (case get_prop update (lit ''events'') of
                  Some (JArr evs) \<Rightarrow> queue_events now evs q
                | _ \<Rightarrow> (q, None)))"

text \<open>
  \<open>processSSEEvent\<close> as a whole: the queue it leaves and the error that reaches its
  caller. The \<open>catch\<close> clause logs what the block threw and the function returns.
\<close>

definition processSSEEvent_run ::
  "(ustring \<Rightarrow> js_error + json) \<Rightarrow> ustring \<Rightarrow> queued_event list \<Rightarrow> ustring \<Rightarrow> ustring \<Rightarrow>
   queued_event list \<times> js_error option" where
  "processSSEEvent_run parse now q ty dat =
     (if ty = lit ''step_update''
      then (case processSSEEvent_try parse now q dat of (q', thrown) \<Rightarrow> (q', None))
      else (q, None))"

definition processSSEEvent ::
  "(ustring \<Rightarrow> js_error + json) \<Rightarrow> ustring \<Rightarrow> queued_event list \<Rightarrow> ustring \<Rightarrow> ustring \<Rightarrow>
   queued_event list" where
  "processSSEEvent parse now q ty dat = fst (processSSEEvent_run parse now q ty dat)"

subsection \<open>The read loop of the simplified page (app/page.tsx)\<close>

text \<open>
  The body of its line loop on the state \<open>sseEvents\<close>: a line that starts with
  \<open>data:\<close> is parsed and appended with the time, after the list is cut to its last 49
  entries; a parse error is caught and ignored.
\<close>

definition simple_handle_line ::
  "(ustring \<Rightarrow> js_error + json) \<Rightarrow> ustring \<Rightarrow> (ustring \<times> json) list \<Rightarrow> ustring \<Rightarrow>
   (ustring \<times> json) list" where
  "simple_handle_line parse now sseEvents line =
     (if prefix (lit ''data:'') line
      then (case parse (trim (drop 5 line)) of
              Inl e \<Rightarrow> sseEvents
            | Inr d \<Rightarrow> drop (length sseEvents - 49) sseEvents @ [(now, d)])
      else sseEvents)"

text \<open>
  A parser for two texts, enough to run the reader on a stream with a malformed record
  followed by a well-formed one.
\<close>

definition ex_good_json :: json where
  "ex_good_json =
     JObj [(lit ''events'',
            JArr [JObj [(lit ''event_type'', JStr (lit ''thought_start'')),
                        (lit ''thought_id'', JStr (lit ''H1'')),
                        (lit ''task_id'', JStr (lit ''T1''))]])]"

definition ex_parse :: "ustring \<Rightarrow> js_error + json" where
  "ex_parse t = (if t = lit ''good'' then Inr ex_good_json else Inl SyntaxError)"

definition ex_bad_then_good :: "string list" where
  "ex_bad_then_good =
     [''event: step_update'' @ [CHR 0x0A] @ ''data: {oops'' @ [CHR 0x0A, CHR 0x0A] @ ''event: st'',
      ''ep_update'' @ [CHR 0x0A] @ ''data: good'' @ [CHR 0x0A, CHR 0x0A]]"

section \<open>Facts about the role check\<close>

lemma indexOf_lower: "- 1 \<le> indexOf xs x"
  by (induction xs) (auto simp: Let_def)

lemma indexOf_absent: "x \<notin> set xs \<Longrightarrow> indexOf xs x = - 1"
  by (induction xs) (auto simp: Let_def)

text \<open>
  Claim C10. Without a user \<open>hasRole\<close> answers false. With any user, whatever its role,
  a required role that is not one of the four names of the hierarchy is granted: the
  required index is \<open>-1\<close> and no index is below it.
\<close>

theorem hasRole_unknown_role:
  "hasRole None r = False \<and>
   (r \<notin> set roleHierarchy \<longrightarrow> hasRole (Some u) r)"
proof -
  have "r \<notin> set roleHierarchy \<Longrightarrow> indexOf roleHierarchy r \<le> indexOf roleHierarchy (role u)"
    using indexOf_absent [of r roleHierarchy] indexOf_lower [of roleHierarchy "role u"]
    by simp
  then show ?thesis
    by (simp add: hasRole_def)
qed

theorem hasRole_unknown_role_witness:
  "''SUPERUSER'' \<notin> set roleHierarchy \<and>
   hasRole (Some \<lparr>user_id = ''u1'', username = ''obs'', role = ''OBSERVER'',
                  api_role = ''OBSERVER'', permissions = [], created_at = ''''\<rparr>) ''SUPERUSER'' \<and>
   hasRole None ''SUPERUSER'' = False"
  using hasRole_unknown_role
    [of "''SUPERUSER''"
        "\<lparr>user_id = ''u1'', username = ''obs'', role = ''OBSERVER'',
          api_role = ''OBSERVER'', permissions = [], created_at = ''''\<rparr>"]
  by (simp add: roleHierarchy_def)

section \<open>The aggregator, one event at a time\<close>

lemmas agg_defs =
  processBatchedEvents_def processEvent_def empty_store_def ex_done_def ex_start_def
  ex_other_def ex_unknown_def ex_restart_def lookup_task_def lookup_thought_def stage_names_def
  new_task_def apply_to_task_def is_terminal_def set_stage_def STAGE_NAMES_def

lemma apply_to_task_completed [simp]:
  "completed (apply_to_task hid e t) = (completed t \<or> is_terminal e)"
  by (simp add: apply_to_task_def Let_def)

lemma apply_to_task_description [simp]:
  "description (apply_to_task hid e t) = description t"
  by (simp add: apply_to_task_def Let_def)

lemma apply_to_task_taskId [simp]:
  "taskId (apply_to_task hid e t) = taskId t"
  by (simp add: apply_to_task_def Let_def)

lemma apply_to_task_firstTimestamp [simp]:
  "firstTimestamp (apply_to_task hid e t) = firstTimestamp t"
  by (simp add: apply_to_task_def Let_def)

lemma apply_to_task_thoughts [simp]:
  "thoughts (apply_to_task hid e t) = upsert_thought hid (set_stage e) (thoughts t)"
  by (simp add: apply_to_task_def Let_def)

lemma processEvent_invalid: "\<not> valid e \<Longrightarrow> processEvent s e = s"
  by (cases "thought_id e"; cases "task_id e") (auto simp: processEvent_def valid_def)

lemma processEvent_new:
  assumes "thought_id e = Some hid" "task_id e = Some tid" "hid \<noteq> []" "tid \<noteq> []"
    and "map_of (tasks s) tid = None"
  shows "processEvent s e =
           \<lparr>heap = heap s @ [apply_to_task hid e (new_task tid e)],
            tasks = AList.update tid (length (heap s)) (tasks s)\<rparr>"
  using assms by (simp add: processEvent_def)

lemma processEvent_old:
  assumes "thought_id e = Some hid" "task_id e = Some tid" "hid \<noteq> []" "tid \<noteq> []"
    and "map_of (tasks s) tid = Some a"
  shows "processEvent s e = s\<lparr>heap := (heap s)[a := apply_to_task hid e (heap s ! a)]\<rparr>"
  using assms by (simp add: processEvent_def)

lemma valid_cases:
  assumes "valid e"
  obtains hid tid where "thought_id e = Some hid" "task_id e = Some tid" "hid \<noteq> []" "tid \<noteq> []"
  using assms by (cases "thought_id e"; cases "task_id e") (auto simp: valid_def)

lemma processEvent_length: "length (heap s) \<le> length (heap (processEvent s e))"
proof (cases "valid e")
  case False
  then show ?thesis by (simp add: processEvent_invalid)
next
  case True
  then obtain hid tid where v: "thought_id e = Some hid" "task_id e = Some tid" "hid \<noteq> []" "tid \<noteq> []"
    by (rule valid_cases)
  show ?thesis
    by (cases "map_of (tasks s) tid") (simp_all add: processEvent_new [OF v] processEvent_old [OF v])
qed

lemma processEvent_binding:
  assumes "map_of (tasks s) k = Some a"
  shows "map_of (tasks (processEvent s e)) k = Some a"
proof (cases "valid e")
  case False
  then show ?thesis using assms by (simp add: processEvent_invalid)
next
  case True
  then obtain hid tid where v: "thought_id e = Some hid" "task_id e = Some tid" "hid \<noteq> []" "tid \<noteq> []"
    by (rule valid_cases)
  show ?thesis
  proof (cases "map_of (tasks s) tid")
    case None
    then have "k \<noteq> tid" using assms by auto
    then show ?thesis using assms None by (simp add: processEvent_new [OF v] update_conv')
  next
    case (Some b)
    then show ?thesis using assms by (simp add: processEvent_old [OF v])
  qed
qed

lemma processEvent_nth:
  assumes "a < length (heap s)"
  shows "heap (processEvent s e) ! a =
           (if valid e \<and> map_of (tasks s) (the (task_id e)) = Some a
            then apply_to_task (the (thought_id e)) e (heap s ! a)
            else heap s ! a)"
proof (cases "valid e")
  case False
  then show ?thesis by (simp add: processEvent_invalid)
next
  case True
  then obtain hid tid where v: "thought_id e = Some hid" "task_id e = Some tid" "hid \<noteq> []" "tid \<noteq> []"
    by (rule valid_cases)
  show ?thesis
  proof (cases "map_of (tasks s) tid")
    case None
    then show ?thesis using assms True v by (simp add: processEvent_new [OF v] nth_append)
  next
    case (Some b)
    then show ?thesis using assms True v
      by (auto simp: processEvent_old [OF v] nth_list_update)
  qed
qed

lemma processEvent_completed_origin:
  assumes "a < length (heap (processEvent s e))" "completed (heap (processEvent s e) ! a)"
  shows "(a < length (heap s) \<and> completed (heap s ! a)) \<or>
         (valid e \<and> is_terminal e \<and>
          (\<exists>tid. task_id e = Some tid \<and> map_of (tasks (processEvent s e)) tid = Some a))"
proof (cases "valid e")
  case False
  then show ?thesis using assms by (simp add: processEvent_invalid)
next
  case True
  then obtain hid tid where v: "thought_id e = Some hid" "task_id e = Some tid" "hid \<noteq> []" "tid \<noteq> []"
    by (rule valid_cases)
  show ?thesis
  proof (cases "map_of (tasks s) tid")
    case None
    note pe = processEvent_new [OF v None]
    show ?thesis
    proof (cases "a < length (heap s)")
      case True
      then show ?thesis using assms by (simp add: pe nth_append)
    next
      case False
      then have "a = length (heap s)" using assms(1) by (simp add: pe)
      then show ?thesis using assms(2) \<open>valid e\<close> v
        by (simp add: pe update_conv' new_task_def)
    qed
  next
    case (Some b)
    note pe = processEvent_old [OF v Some]
    have len: "a < length (heap s)" using assms(1) by (simp add: pe)
    show ?thesis
    proof (cases "a = b")
      case True
      then show ?thesis using assms(2) len \<open>valid e\<close> v Some by (auto simp: pe)
    next
      case False
      then show ?thesis using assms(2) len by (simp add: pe)
    qed
  qed
qed

lemma foldl_length: "length (heap s) \<le> length (heap (foldl processEvent s evs))"
proof (induction evs arbitrary: s)
  case Nil show ?case by simp
next
  case (Cons e evs)
  show ?case using processEvent_length [of s e] Cons [of "processEvent s e"] by simp
qed

lemma foldl_binding:
  "map_of (tasks s) k = Some a \<Longrightarrow> map_of (tasks (foldl processEvent s evs)) k = Some a"
  by (induction evs arbitrary: s) (simp_all add: processEvent_binding)

lemma foldl_completed_kept:
  "a < length (heap s) \<Longrightarrow> completed (heap s ! a) \<Longrightarrow>
   completed (heap (foldl processEvent s evs) ! a)"
proof (induction evs arbitrary: s)
  case Nil then show ?case by simp
next
  case (Cons e evs)
  have "a < length (heap (processEvent s e))"
    using Cons.prems(1) processEvent_length [of s e] by simp
  moreover have "completed (heap (processEvent s e) ! a)"
    using Cons.prems by (simp add: processEvent_nth)
  ultimately show ?case using Cons.IH by simp
qed

lemma foldl_completed_origin:
  "a < length (heap (foldl processEvent s evs)) \<Longrightarrow>
   completed (heap (foldl processEvent s evs) ! a) \<Longrightarrow>
   (a < length (heap s) \<and> completed (heap s ! a)) \<or>
   (\<exists>e \<in> set evs. valid e \<and> is_terminal e \<and>
      (\<exists>tid. task_id e = Some tid \<and>
         map_of (tasks (foldl processEvent s evs)) tid = Some a))"
proof (induction evs arbitrary: s)
  case Nil then show ?case by simp
next
  case (Cons e evs)
  let ?s1 = "processEvent s e"
  from Cons.IH [of ?s1] Cons.prems
  consider (old) "a < length (heap ?s1)" "completed (heap ?s1 ! a)"
    | (later) "\<exists>e' \<in> set evs. valid e' \<and> is_terminal e' \<and>
        (\<exists>tid. task_id e' = Some tid \<and> map_of (tasks (foldl processEvent ?s1 evs)) tid = Some a)"
    by auto
  then show ?case
  proof cases
    case old
    from processEvent_completed_origin [OF old]
    show ?thesis
    proof
      assume "a < length (heap s) \<and> completed (heap s ! a)"
      then show ?thesis by simp
    next
      assume "valid e \<and> is_terminal e \<and>
          (\<exists>tid. task_id e = Some tid \<and> map_of (tasks ?s1) tid = Some a)"
      then show ?thesis using foldl_binding [of ?s1 _ a evs] by auto
    qed
  next
    case later
    then show ?thesis by auto
  qed
qed

lemma processEvent_binding_old:
  assumes "map_of (tasks (processEvent s e)) k = Some a" "a < length (heap s)"
  shows "map_of (tasks s) k = Some a"
proof (cases "valid e")
  case False
  then show ?thesis using assms by (simp add: processEvent_invalid)
next
  case True
  then obtain hid tid where v: "thought_id e = Some hid" "task_id e = Some tid" "hid \<noteq> []" "tid \<noteq> []"
    by (rule valid_cases)
  show ?thesis
  proof (cases "map_of (tasks s) tid")
    case None
    then show ?thesis using assms
      by (auto simp: processEvent_new [OF v] update_conv' split: if_splits)
  next
    case (Some b)
    then show ?thesis using assms by (simp add: processEvent_old [OF v])
  qed
qed

lemma foldl_frame:
  "a < length (heap s) \<Longrightarrow>
   \<forall>e \<in> set evs. \<forall>tid. valid e \<and> task_id e = Some tid \<longrightarrow> map_of (tasks s) tid \<noteq> Some a \<Longrightarrow>
   heap (foldl processEvent s evs) ! a = heap s ! a"
proof (induction evs arbitrary: s)
  case Nil then show ?case by simp
next
  case (Cons e evs)
  let ?s1 = "processEvent s e"
  have step: "heap ?s1 ! a = heap s ! a"
  proof (cases "valid e")
    case False then show ?thesis by (simp add: processEvent_invalid)
  next
    case True
    then obtain hid tid where v: "thought_id e = Some hid" "task_id e = Some tid" "hid \<noteq> []" "tid \<noteq> []"
      by (rule valid_cases)
    have "map_of (tasks s) tid \<noteq> Some a" using Cons.prems(2) True v(2) by simp
    then show ?thesis using Cons.prems(1) v by (simp add: processEvent_nth)
  qed
  have len: "a < length (heap ?s1)"
    using Cons.prems(1) processEvent_length [of s e] by simp
  have "\<forall>e' \<in> set evs. \<forall>tid. valid e' \<and> task_id e' = Some tid \<longrightarrow> map_of (tasks ?s1) tid \<noteq> Some a"
    using Cons.prems processEvent_binding_old [of s e _ a] by auto
  from Cons.IH [OF len this] step show ?case by simp
qed

lemma foldl_description:
  "a < length (heap s) \<Longrightarrow> description (heap (foldl processEvent s evs) ! a) = description (heap s ! a)"
proof (induction evs arbitrary: s)
  case Nil then show ?case by simp
next
  case (Cons e evs)
  have "a < length (heap (processEvent s e))"
    using Cons.prems processEvent_length [of s e] by simp
  from Cons.IH [OF this] Cons.prems show ?case by (simp add: processEvent_nth)
qed

lemma processEvent_unbound:
  assumes "map_of (tasks s) k = None" "valid e \<longrightarrow> task_id e \<noteq> Some k"
  shows "map_of (tasks (processEvent s e)) k = None"
proof (cases "valid e")
  case False
  then show ?thesis using assms by (simp add: processEvent_invalid)
next
  case True
  then obtain hid tid where v: "thought_id e = Some hid" "task_id e = Some tid" "hid \<noteq> []" "tid \<noteq> []"
    by (rule valid_cases)
  have "tid \<noteq> k" using assms(2) True v(2) by simp
  then show ?thesis using assms(1)
    by (cases "map_of (tasks s) tid") (simp_all add: processEvent_new [OF v] processEvent_old [OF v] update_conv')
qed

lemma foldl_unbound:
  "map_of (tasks s) k = None \<Longrightarrow> \<forall>e \<in> set evs. valid e \<longrightarrow> task_id e \<noteq> Some k \<Longrightarrow>
   map_of (tasks (foldl processEvent s evs)) k = None"
  by (induction evs arbitrary: s) (simp_all add: processEvent_unbound)

lemma processBatchedEvents_foldl: "processBatchedEvents s evs = foldl processEvent s evs"
  by (simp add: processBatchedEvents_def)

subsection \<open>Thoughts and their stage maps\<close>

lemma set_stage_thoughtId [simp]: "thoughtId (set_stage e th) = thoughtId th"
  by (simp add: set_stage_def)

lemma set_stage_names:
  "fst ` set (stages (set_stage e th)) =
     fst ` set (stages th) \<union> (if event_type e \<in> set STAGE_NAMES then {event_type e} else {})"
  by (auto simp: set_stage_def dom_update)



lemma set_stage_idem [simp]: "set_stage e (set_stage e th) = set_stage e th"
  by (simp add: set_stage_def)

lemma find_upsert:
  assumes "\<And>t. thoughtId (f t) = thoughtId t"
  shows "find (\<lambda>th. thoughtId th = h) (upsert_thought hid f ts) =
           (if h = hid
            then Some (f (case find (\<lambda>th. thoughtId th = hid) ts of
                            None \<Rightarrow> \<lparr>thoughtId = hid, stages = []\<rparr>
                          | Some t \<Rightarrow> t))
            else find (\<lambda>th. thoughtId th = h) ts)"
  by (induction ts) (auto simp: assms)


lemma upsert_idem:
  assumes "\<And>t. thoughtId (f t) = thoughtId t" "\<And>t. f (f t) = f t"
  shows "upsert_thought hid f (upsert_thought hid f ts) = upsert_thought hid f ts"
  by (induction ts) (auto simp: assms)

subsection \<open>One task object\<close>

lemma apply_to_task_idem [simp]:
  "apply_to_task hid e (apply_to_task hid e t) = apply_to_task hid e t"
  by (simp add: apply_to_task_def Let_def upsert_idem)

lemma find_upsert_stage:
  "find (\<lambda>th. thoughtId th = h) (upsert_thought hid (set_stage e) ts) =
     (if h = hid
      then Some (set_stage e (case find (\<lambda>th. thoughtId th = hid) ts of
                                None \<Rightarrow> \<lparr>thoughtId = hid, stages = []\<rparr>
                              | Some th \<Rightarrow> th))
      else find (\<lambda>th. thoughtId th = h) ts)"
  by (simp add: find_upsert)




subsection \<open>The store\<close>

lemma update_unbound: "map_of al k = None \<Longrightarrow> AList.update k v al = al @ [(k, v)]"
  by (induction al) (auto split: if_splits)

lemma wf_processEvent:
  assumes "wf_store s"
  shows "wf_store (processEvent s e)"
proof (cases "valid e")
  case False
  then show ?thesis using assms by (simp add: processEvent_invalid)
next
  case True
  then obtain hid tid where v: "thought_id e = Some hid" "task_id e = Some tid" "hid \<noteq> []" "tid \<noteq> []"
    by (rule valid_cases)
  show ?thesis
  proof (cases "map_of (tasks s) tid")
    case None
    then show ?thesis using assms
      by (auto simp: processEvent_new [OF v] update_unbound wf_store_def)
  next
    case (Some b)
    then show ?thesis using assms by (simp add: processEvent_old [OF v] wf_store_def)
  qed
qed


lemma wf_empty_store: "wf_store empty_store"
  by (simp add: wf_store_def empty_store_def)

lemma wf_bound: "wf_store s \<Longrightarrow> map_of (tasks s) k = Some a \<Longrightarrow> a < length (heap s)"
  by (auto simp: wf_store_def dest!: map_of_SomeD intro: rev_image_eqI)

lemma lookup_task_target:
  assumes "wf_store s" "thought_id e = Some hid" "task_id e = Some tid" "hid \<noteq> []" "tid \<noteq> []"
  shows "lookup_task (processEvent s e) tid =
           Some (apply_to_task hid e
                   (case lookup_task s tid of None \<Rightarrow> new_task tid e | Some t \<Rightarrow> t))"
proof (cases "map_of (tasks s) tid")
  case None
  then show ?thesis
    by (simp add: processEvent_new [OF assms(2-5)] lookup_task_def update_conv')
next
  case (Some a)
  then have "a < length (heap s)" using assms(1) by (simp add: wf_bound)
  then show ?thesis using Some
    by (simp add: processEvent_old [OF assms(2-5)] lookup_task_def)
qed









lemma lookup_thought_step:
  assumes "wf_store s" "thought_id e = Some hid" "task_id e = Some tid" "hid \<noteq> []" "tid \<noteq> []"
  shows "lookup_thought (processEvent s e) tid hid =
           Some (set_stage e (case lookup_thought s tid hid of
                                None \<Rightarrow> \<lparr>thoughtId = hid, stages = []\<rparr>
                              | Some th \<Rightarrow> th))"
  by (cases "lookup_task s tid")
     (simp_all add: lookup_thought_def lookup_task_target [OF assms] find_upsert_stage new_task_def)

lemma stage_names_step:
  assumes "wf_store s" "thought_id e = Some hid" "task_id e = Some tid" "hid \<noteq> []" "tid \<noteq> []"
  shows "stage_names (lookup_thought (processEvent s e) tid hid) =
           stage_names (lookup_thought s tid hid) \<union>
           (if event_type e \<in> set STAGE_NAMES then {event_type e} else {})"
  by (cases "lookup_thought s tid hid")
     (simp_all add: lookup_thought_step [OF assms] stage_names_def set_stage_names)

lemma stage_names_foldl:
  assumes "tid \<noteq> []" "hid \<noteq> []"
  shows "wf_store s \<Longrightarrow> \<forall>e \<in> set es. task_id e = Some tid \<and> thought_id e = Some hid \<Longrightarrow>
   stage_names (lookup_thought (foldl processEvent s es) tid hid) =
     stage_names (lookup_thought s tid hid) \<union> (set STAGE_NAMES \<inter> event_type ` set es)"
proof (induction es arbitrary: s)
  case Nil then show ?case by simp
next
  case (Cons e es)
  have ids: "thought_id e = Some hid" "task_id e = Some tid" using Cons.prems(2) by simp_all
  have wf1: "wf_store (processEvent s e)" using Cons.prems(1) by (rule wf_processEvent)
  have rest: "\<forall>e \<in> set es. task_id e = Some tid \<and> thought_id e = Some hid"
    using Cons.prems(2) by simp
  show ?case
    using Cons.IH [OF wf1 rest]
      stage_names_step [OF Cons.prems(1) ids assms(2) assms(1)]
    by auto
qed

lemma lookup_thought_foldl_some:
  assumes "tid \<noteq> []" "hid \<noteq> []"
  shows "wf_store s \<Longrightarrow> \<forall>e \<in> set es. task_id e = Some tid \<and> thought_id e = Some hid \<Longrightarrow>
     es \<noteq> [] \<or> lookup_thought s tid hid \<noteq> None \<Longrightarrow>
     lookup_thought (foldl processEvent s es) tid hid \<noteq> None"
proof (induction es arbitrary: s)
  case Nil then show ?case by simp
next
  case (Cons e es)
  have ids: "thought_id e = Some hid" "task_id e = Some tid" using Cons.prems(2) by simp_all
  have wf1: "wf_store (processEvent s e)" using Cons.prems(1) by (rule wf_processEvent)
  have rest: "\<forall>e \<in> set es. task_id e = Some tid \<and> thought_id e = Some hid"
    using Cons.prems(2) by simp
  have "lookup_thought (processEvent s e) tid hid \<noteq> None"
    by (simp add: lookup_thought_step [OF Cons.prems(1) ids assms(2) assms(1)])
  with Cons.IH [OF wf1 rest] show ?case by simp
qed

section \<open>Completion of a task\<close>

text \<open>
  Claim C1. A task object whose \<open>completed\<close> flag is true keeps it through any batch,
  and the task id that was bound to the object stays bound to it. In the other
  direction, a flag that is true after a batch was true before it, or the batch holds an
  event that passed the guard, has type \<open>action_result\<close> with \<open>action_executed\<close>
  containing \<open>task_complete\<close> or \<open>task_reject\<close>, and carries a task id bound to
  that object.
\<close>

theorem completed_never_reset:
  "(a < length (heap s) \<and> completed (heap s ! a) \<longrightarrow>
      a < length (heap (processBatchedEvents s evs)) \<and>
      completed (heap (processBatchedEvents s evs) ! a)) \<and>
   (map_of (tasks s) k = Some a \<longrightarrow> map_of (tasks (processBatchedEvents s evs)) k = Some a) \<and>
   (a < length (heap (processBatchedEvents s evs)) \<and>
    completed (heap (processBatchedEvents s evs) ! a) \<longrightarrow>
      (a < length (heap s) \<and> completed (heap s ! a)) \<or>
      (\<exists>e \<in> set evs. valid e \<and> is_terminal e \<and>
         (\<exists>tid. task_id e = Some tid \<and>
            map_of (tasks (processBatchedEvents s evs)) tid = Some a)))"
proof -
  have eq: "processBatchedEvents s evs = foldl processEvent s evs"
    by (simp add: processBatchedEvents_def)
  show ?thesis
    unfolding eq
    using foldl_completed_kept [of a s evs] foldl_length [of s evs]
      foldl_binding [of s k a evs] foldl_completed_origin [of a s evs]
    by (intro conjI impI) auto
qed

theorem completed_never_reset_witness:
  "completed (heap (processBatchedEvents empty_store [ex_done]) ! 0) \<and>
   completed (heap (processBatchedEvents (processBatchedEvents empty_store [ex_done])
                      [ex_start]) ! 0) \<and>
   map_of (tasks (processBatchedEvents (processBatchedEvents empty_store [ex_done])
                    [ex_start])) ''T1'' = Some 0 \<and>
   is_terminal ex_done \<and> \<not> is_terminal ex_start"
proof -
  let ?S = "processBatchedEvents empty_store [ex_done]"
  have h: "0 < length (heap ?S) \<and> completed (heap ?S ! 0)"
    by (simp add: agg_defs)
  have k: "map_of (tasks ?S) ''T1'' = Some 0"
    by (simp add: agg_defs)
  have t: "is_terminal ex_done \<and> \<not> is_terminal ex_start"
    by (simp add: agg_defs)
  note inst = completed_never_reset [of 0 ?S "[ex_start]" "''T1''"]
  from inst h have c: "completed (heap (processBatchedEvents ?S [ex_start]) ! 0)"
    by blast
  from inst k have b: "map_of (tasks (processBatchedEvents ?S [ex_start])) ''T1'' = Some 0"
    by blast
  from h c b t show ?thesis by blast
qed

section \<open>What a batch leaves alone\<close>

text \<open>
  Claim C2, as stated, fails: the object that the prior snapshot binds to a task id is
  the object the loop mutates. Here the prior snapshot binds \<open>T1\<close> to address 0, and
  after the next batch the object at address 0 is completed and has a second stage.
\<close>

theorem snapshot_mutated_counterexample:
  "map_of (tasks (processBatchedEvents empty_store [ex_start])) ''T1'' = Some 0 \<and>
   0 < length (heap (processBatchedEvents empty_store [ex_start])) \<and>
   \<not> completed (heap (processBatchedEvents empty_store [ex_start]) ! 0) \<and>
   completed (heap (processBatchedEvents (processBatchedEvents empty_store [ex_start])
                      [ex_done]) ! 0) \<and>
   heap (processBatchedEvents (processBatchedEvents empty_store [ex_start]) [ex_done]) ! 0
     \<noteq> heap (processBatchedEvents empty_store [ex_start]) ! 0"
  by (simp add: agg_defs)

lemma processBatchedEvents_frame:
  "(map_of (tasks s) k = Some a \<longrightarrow> map_of (tasks (processBatchedEvents s evs)) k = Some a) \<and>
   length (heap s) \<le> length (heap (processBatchedEvents s evs)) \<and>
   (a < length (heap s) \<and>
    (\<forall>e \<in> set evs. \<forall>tid. valid e \<and> task_id e = Some tid \<longrightarrow> map_of (tasks s) tid \<noteq> Some a) \<longrightarrow>
      heap (processBatchedEvents s evs) ! a = heap s ! a)"
proof -
  have eq: "processBatchedEvents s evs = foldl processEvent s evs"
    by (simp add: processBatchedEvents_def)
  show ?thesis
    unfolding eq
    using foldl_binding [of s k a evs] foldl_length [of s evs] foldl_frame [of a s evs]
    by blast
qed

lemma state_empty_batch: "processBatchedEvents_state m [] = m"
  by (simp add: processBatchedEvents_state_def)

lemma state_batch:
  assumes "evs \<noteq> []"
  shows "processBatchedEvents_state m evs =
           \<lparr>task_heap =
              heap (processBatchedEvents
                      \<lparr>heap = task_heap m, tasks = map_heap m ! tasks_state m\<rparr> evs),
            map_heap = map_heap m @
              [tasks (processBatchedEvents
                        \<lparr>heap = task_heap m, tasks = map_heap m ! tasks_state m\<rparr> evs)],
            tasks_state = length (map_heap m)\<rparr>"
  using assms by (simp add: processBatchedEvents_state_def Let_def)

text \<open>
  Claim C2, amended. Let the state hold an existing map. A batch that is not empty
  produces a new map: the state afterwards is a fresh address, different from the one
  before, also when every event of the batch fails the guard; an empty batch changes
  nothing at all. No map that existed before the batch is changed, the prior snapshot
  among them. Every task id that the prior snapshot binds is bound by the new one to the
  same task object. Task objects are only added, and a task object that no event of the
  batch passing the guard addresses through a binding of the prior snapshot is unchanged;
  nothing is said of the objects that the batch does address, which are the same objects
  in both snapshots. Change detection on the identity of the map is sound: when the state
  holds the same map after a call as before it, the call changed nothing.
\<close>

theorem snapshot_frame:
  assumes "wf_snapshots m"
  shows "(evs \<noteq> [] \<longrightarrow>
            tasks_state (processBatchedEvents_state m evs) = length (map_heap m) \<and>
            tasks_state (processBatchedEvents_state m evs) \<noteq> tasks_state m \<and>
            wf_snapshots (processBatchedEvents_state m evs)) \<and>
         (evs = [] \<longrightarrow> processBatchedEvents_state m evs = m) \<and>
         (\<forall>p < length (map_heap m).
            map_heap (processBatchedEvents_state m evs) ! p = map_heap m ! p) \<and>
         (map_of (map_heap m ! tasks_state m) k = Some a \<longrightarrow>
            map_of (map_heap (processBatchedEvents_state m evs) !
                      tasks_state (processBatchedEvents_state m evs)) k = Some a) \<and>
         length (task_heap m) \<le> length (task_heap (processBatchedEvents_state m evs)) \<and>
         (a < length (task_heap m) \<and>
          (\<forall>e \<in> set evs. \<forall>tid. valid e \<and> task_id e = Some tid \<longrightarrow>
             map_of (map_heap m ! tasks_state m) tid \<noteq> Some a) \<longrightarrow>
            task_heap (processBatchedEvents_state m evs) ! a = task_heap m ! a) \<and>
         (tasks_state (processBatchedEvents_state m evs) = tasks_state m \<longrightarrow>
            processBatchedEvents_state m evs = m)"
proof (cases "evs = []")
  case True
  then show ?thesis by (simp add: state_empty_batch)
next
  case False
  let ?s = "\<lparr>heap = task_heap m, tasks = map_heap m ! tasks_state m\<rparr>"
  let ?s' = "processBatchedEvents ?s evs"
  let ?m' = "processBatchedEvents_state m evs"
  have m': "?m' = \<lparr>task_heap = heap ?s', map_heap = map_heap m @ [tasks ?s'],
                   tasks_state = length (map_heap m)\<rparr>"
    using False by (rule state_batch)
  have wf: "tasks_state m < length (map_heap m)"
    using assms by (simp add: wf_snapshots_def)
  note fr = processBatchedEvents_frame [of ?s k a evs]
  have c1: "tasks_state ?m' = length (map_heap m)" by (simp add: m')
  have c2: "tasks_state ?m' \<noteq> tasks_state m" using wf by (simp add: m')
  have c3: "wf_snapshots ?m'" by (simp add: m' wf_snapshots_def)
  have c4: "\<forall>p < length (map_heap m). map_heap ?m' ! p = map_heap m ! p"
    by (simp add: m' nth_append)
  have c5: "map_of (map_heap m ! tasks_state m) k = Some a \<longrightarrow>
            map_of (map_heap ?m' ! tasks_state ?m') k = Some a"
    using fr by (simp add: m')
  have c6: "length (task_heap m) \<le> length (task_heap ?m')"
    using fr by (simp add: m')
  have c7: "a < length (task_heap m) \<and>
          (\<forall>e \<in> set evs. \<forall>tid. valid e \<and> task_id e = Some tid \<longrightarrow>
             map_of (map_heap m ! tasks_state m) tid \<noteq> Some a) \<longrightarrow>
            task_heap ?m' ! a = task_heap m ! a"
    using fr by (simp add: m')
  from False c1 c2 c3 c4 c5 c6 c7 show ?thesis by blast
qed

lemmas state_defs =
  processBatchedEvents_state_def initial_snapshots_def wf_snapshots_def ex_skipped_def Let_def

theorem snapshot_frame_witness:
  "tasks_state (processBatchedEvents_state initial_snapshots [ex_start]) = 1 \<and>
   map_of (map_heap (processBatchedEvents_state initial_snapshots [ex_start]) ! 1) ''T1'' = Some 0 \<and>
   tasks_state (processBatchedEvents_state
                  (processBatchedEvents_state initial_snapshots [ex_start]) [ex_other]) = 2 \<and>
   map_heap (processBatchedEvents_state
               (processBatchedEvents_state initial_snapshots [ex_start]) [ex_other]) ! 1 =
     map_heap (processBatchedEvents_state initial_snapshots [ex_start]) ! 1 \<and>
   map_of (map_heap (processBatchedEvents_state
                       (processBatchedEvents_state initial_snapshots [ex_start]) [ex_other]) ! 2)
     ''T1'' = Some 0 \<and>
   task_heap (processBatchedEvents_state
                (processBatchedEvents_state initial_snapshots [ex_start]) [ex_other]) ! 0 =
     task_heap (processBatchedEvents_state initial_snapshots [ex_start]) ! 0 \<and>
   tasks_state (processBatchedEvents_state
                  (processBatchedEvents_state initial_snapshots [ex_start]) [ex_skipped]) \<noteq>
     tasks_state (processBatchedEvents_state initial_snapshots [ex_start]) \<and>
   task_heap (processBatchedEvents_state
                (processBatchedEvents_state initial_snapshots [ex_start]) [ex_skipped]) ! 0 =
     task_heap (processBatchedEvents_state initial_snapshots [ex_start]) ! 0"
proof -
  let ?M = "processBatchedEvents_state initial_snapshots [ex_start]"
  have wf: "wf_snapshots ?M"
    by (simp add: state_defs)
  have st: "tasks_state ?M = 1" "length (map_heap ?M) = 2"
    by (simp_all add: state_defs)
  have k: "map_of (map_heap ?M ! tasks_state ?M) ''T1'' = Some 0"
    by (simp add: state_defs agg_defs)
  have l: "0 < length (task_heap ?M)"
    by (simp add: state_defs agg_defs)
  have f: "\<forall>e \<in> set [ex_other]. \<forall>tid. valid e \<and> task_id e = Some tid \<longrightarrow>
             map_of (map_heap ?M ! tasks_state ?M) tid \<noteq> Some 0"
    by (simp add: state_defs agg_defs)
  have g: "\<forall>e \<in> set [ex_skipped]. \<forall>tid. valid e \<and> task_id e = Some tid \<longrightarrow>
             map_of (map_heap ?M ! tasks_state ?M) tid \<noteq> Some 0"
    by (simp add: ex_skipped_def valid_def)
  have ne: "[ex_other] \<noteq> []" "[ex_skipped] \<noteq> []" by simp_all
  note other = snapshot_frame [OF wf, of "[ex_other]" "''T1''" 0]
  note skipped = snapshot_frame [OF wf, of "[ex_skipped]" "''T1''" 0]
  from other ne(1) have a1: "tasks_state (processBatchedEvents_state ?M [ex_other]) = length (map_heap ?M)"
    by blast
  have a: "tasks_state (processBatchedEvents_state ?M [ex_other]) = 2"
    using a1 unfolding st(2) .
  from other have "\<forall>p < length (map_heap ?M).
      map_heap (processBatchedEvents_state ?M [ex_other]) ! p = map_heap ?M ! p"
    by blast
  then have b: "map_heap (processBatchedEvents_state ?M [ex_other]) ! 1 = map_heap ?M ! 1"
    unfolding st(2) by simp
  from other k have "map_of (map_heap (processBatchedEvents_state ?M [ex_other]) !
                       tasks_state (processBatchedEvents_state ?M [ex_other])) ''T1'' = Some 0"
    by blast
  then have c: "map_of (map_heap (processBatchedEvents_state ?M [ex_other]) ! 2) ''T1'' = Some 0"
    unfolding a .
  from other l f have d: "task_heap (processBatchedEvents_state ?M [ex_other]) ! 0 = task_heap ?M ! 0"
    by blast
  from skipped ne(2) have e: "tasks_state (processBatchedEvents_state ?M [ex_skipped]) \<noteq> tasks_state ?M"
    by blast
  from skipped l g have h: "task_heap (processBatchedEvents_state ?M [ex_skipped]) ! 0 = task_heap ?M ! 0"
    by blast
  have k1: "map_of (map_heap ?M ! 1) ''T1'' = Some 0"
    using k unfolding st(1) .
  from st(1) k1 a b c d e h show ?thesis by blast
qed

section \<open>The description of a task\<close>

text \<open>
  Claim C7, as stated, fails: the first event of task \<open>T1\<close> carries no description and
  the second one does; the task keeps the empty description it was created with.
\<close>

theorem description_counterexample:
  "spec_first_description ''T1'' [ex_start, ex_done] = Some ''say hello'' \<and>
   map_option description (lookup_task (processBatchedEvents empty_store [ex_start, ex_done]) ''T1'')
     = Some []"
  by (simp add: agg_defs)

text \<open>
  Claim C7, amended. No batch changes the description of an existing task object. A task
  id that is not bound yet gets, from the first event of the batch that passes the guard
  and carries that task id, a task whose description is the \<open>task_description\<close> of
  that event, or the empty string when the event has none.
\<close>

theorem first_event_description:
  "(a < length (heap s) \<longrightarrow>
      description (heap (processBatchedEvents s evs) ! a) = description (heap s ! a)) \<and>
   (map_of (tasks s) tid = None \<and> evs = pre @ e # post \<and>
    (\<forall>e' \<in> set pre. valid e' \<longrightarrow> task_id e' \<noteq> Some tid) \<and>
    valid e \<and> task_id e = Some tid \<longrightarrow>
      (\<exists>t. lookup_task (processBatchedEvents s evs) tid = Some t \<and>
           description t = (case task_description (data e) of None \<Rightarrow> [] | Some d \<Rightarrow> d)))"
proof (intro conjI impI)
  assume "a < length (heap s)"
  then show "description (heap (processBatchedEvents s evs) ! a) = description (heap s ! a)"
    by (simp add: processBatchedEvents_def foldl_description)
next
  assume asm: "map_of (tasks s) tid = None \<and> evs = pre @ e # post \<and>
    (\<forall>e' \<in> set pre. valid e' \<longrightarrow> task_id e' \<noteq> Some tid) \<and> valid e \<and> task_id e = Some tid"
  let ?s1 = "foldl processEvent s pre"
  let ?s2 = "processEvent ?s1 e"
  let ?a = "length (heap ?s1)"
  have unb: "map_of (tasks ?s1) tid = None" using asm by (simp add: foldl_unbound)
  obtain hid where v: "thought_id e = Some hid" "task_id e = Some tid" "hid \<noteq> []" "tid \<noteq> []"
    using asm by (auto elim: valid_cases)
  note pe = processEvent_new [OF v unb]
  have b2: "map_of (tasks ?s2) tid = Some ?a" by (simp add: pe update_conv')
  have l2: "?a < length (heap ?s2)" by (simp add: pe)
  have d2: "description (heap ?s2 ! ?a) = (case task_description (data e) of None \<Rightarrow> [] | Some d \<Rightarrow> d)"
    by (simp add: pe new_task_def)
  have fin: "processBatchedEvents s evs = foldl processEvent ?s2 post"
    using asm by (simp add: processBatchedEvents_def)
  have b3: "map_of (tasks (foldl processEvent ?s2 post)) tid = Some ?a"
    using b2 by (rule foldl_binding)
  have l3: "?a < length (heap (foldl processEvent ?s2 post))"
    using l2 foldl_length [of ?s2 post] by simp
  have d3: "description (heap (foldl processEvent ?s2 post) ! ?a) = description (heap ?s2 ! ?a)"
    using l2 by (rule foldl_description)
  show "\<exists>t. lookup_task (processBatchedEvents s evs) tid = Some t \<and>
           description t = (case task_description (data e) of None \<Rightarrow> [] | Some d \<Rightarrow> d)"
    unfolding fin lookup_task_def using b3 l3 d3 d2 by simp
qed

theorem first_event_description_witness:
  "description (heap (processBatchedEvents (processBatchedEvents empty_store [ex_start])
                        [ex_done, ex_other]) ! 0)
     = description (heap (processBatchedEvents empty_store [ex_start]) ! 0) \<and>
   (\<exists>t. lookup_task (processBatchedEvents (processBatchedEvents empty_store [ex_start])
                        [ex_done, ex_other]) ''T2'' = Some t \<and>
        description t = ''other task'')"
proof -
  let ?S = "processBatchedEvents empty_store [ex_start]"
  have l: "0 < length (heap ?S)"
    by (simp add: agg_defs)
  have h: "map_of (tasks ?S) ''T2'' = None \<and> [ex_done, ex_other] = [ex_done] @ ex_other # [] \<and>
           (\<forall>e' \<in> set [ex_done]. valid e' \<longrightarrow> task_id e' \<noteq> Some ''T2'') \<and>
           valid ex_other \<and> task_id ex_other = Some ''T2''"
    by (simp add: agg_defs valid_def)
  have d: "(case task_description (data ex_other) of None \<Rightarrow> [] | Some d \<Rightarrow> d) = ''other task''"
    by (simp add: ex_other_def)
  note inst = first_event_description
    [of 0 ?S "[ex_done, ex_other]" "''T2''" "[ex_done]" ex_other "[]"]
  from inst l have a: "description (heap (processBatchedEvents ?S [ex_done, ex_other]) ! 0)
                         = description (heap ?S ! 0)"
    by blast
  from inst h have "\<exists>t. lookup_task (processBatchedEvents ?S [ex_done, ex_other]) ''T2'' = Some t \<and>
      description t = (case task_description (data ex_other) of None \<Rightarrow> [] | Some d \<Rightarrow> d)"
    by blast
  then have b: "\<exists>t. lookup_task (processBatchedEvents ?S [ex_done, ex_other]) ''T2'' = Some t \<and>
      description t = ''other task''"
    unfolding d .
  from a b show ?thesis by blast
qed

section \<open>Stage insertion\<close>

text \<open>
  Claim C5. Let every event of a non-empty list carry the same task id and the same
  thought id, both non-empty. After the list is applied the thought exists, and the keys
  of its stage map are the keys it had before together with the event types of the list
  that are among the six known stage names; an event type outside the six adds no key.
  The key set is the same for every permutation of the list, and applying the list in
  two batches gives the same store as applying it in one.
\<close>

theorem stage_insertion_order_independent:
  assumes "wf_store s" "tid \<noteq> []" "hid \<noteq> []" "es \<noteq> []"
    and "\<forall>e \<in> set es. task_id e = Some tid \<and> thought_id e = Some hid"
  shows "(\<exists>th. lookup_thought (processBatchedEvents s es) tid hid = Some th \<and>
              fst ` set (stages th) =
                stage_names (lookup_thought s tid hid) \<union>
                (set STAGE_NAMES \<inter> event_type ` set es)) \<and>
         (\<forall>es'. mset es' = mset es \<longrightarrow>
              stage_names (lookup_thought (processBatchedEvents s es') tid hid) =
              stage_names (lookup_thought (processBatchedEvents s es) tid hid)) \<and>
         (\<forall>es1 es2. es1 @ es2 = es \<longrightarrow>
              processBatchedEvents (processBatchedEvents s es1) es2 = processBatchedEvents s es)"
proof (intro conjI allI impI)
  have eq: "processBatchedEvents s es = foldl processEvent s es"
    by (rule processBatchedEvents_foldl)
  have n: "stage_names (lookup_thought (foldl processEvent s es) tid hid) =
             stage_names (lookup_thought s tid hid) \<union> (set STAGE_NAMES \<inter> event_type ` set es)"
    using assms by (simp add: stage_names_foldl)
  have "lookup_thought (foldl processEvent s es) tid hid \<noteq> None"
    using assms by (simp add: lookup_thought_foldl_some)
  then obtain th where th: "lookup_thought (foldl processEvent s es) tid hid = Some th"
    by auto
  with n have "fst ` set (stages th) =
      stage_names (lookup_thought s tid hid) \<union> (set STAGE_NAMES \<inter> event_type ` set es)"
    by (simp add: stage_names_def)
  with th show "\<exists>th. lookup_thought (processBatchedEvents s es) tid hid = Some th \<and>
      fst ` set (stages th) =
        stage_names (lookup_thought s tid hid) \<union> (set STAGE_NAMES \<inter> event_type ` set es)"
    unfolding eq by blast
next
  fix es' :: "event list"
  assume m: "mset es' = mset es"
  then have se: "set es' = set es" by (rule mset_eq_setD)
  have a: "\<forall>e \<in> set es'. task_id e = Some tid \<and> thought_id e = Some hid"
    using assms(5) se by simp
  have "stage_names (lookup_thought (foldl processEvent s es') tid hid) =
        stage_names (lookup_thought (foldl processEvent s es) tid hid)"
    using stage_names_foldl [OF assms(2,3,1) a] stage_names_foldl [OF assms(2,3,1,5)] se
    by simp
  then show "stage_names (lookup_thought (processBatchedEvents s es') tid hid) =
             stage_names (lookup_thought (processBatchedEvents s es) tid hid)"
    by (simp add: processBatchedEvents_foldl)
next
  fix es1 es2 :: "event list"
  assume "es1 @ es2 = es"
  then show "processBatchedEvents (processBatchedEvents s es1) es2 = processBatchedEvents s es"
    by (auto simp: processBatchedEvents_foldl)
qed

theorem stage_insertion_order_independent_witness:
  "(\<exists>th. lookup_thought (processBatchedEvents empty_store [ex_done, ex_unknown, ex_start])
            ''T1'' ''H1'' = Some th \<and>
         fst ` set (stages th) = {''action_result'', ''thought_start''}) \<and>
   stage_names (lookup_thought (processBatchedEvents empty_store [ex_start, ex_done, ex_unknown])
                  ''T1'' ''H1'') =
   stage_names (lookup_thought (processBatchedEvents empty_store [ex_done, ex_unknown, ex_start])
                  ''T1'' ''H1'') \<and>
   processBatchedEvents (processBatchedEvents empty_store [ex_done]) [ex_unknown, ex_start] =
   processBatchedEvents empty_store [ex_done, ex_unknown, ex_start]"
proof -
  let ?es = "[ex_done, ex_unknown, ex_start]"
  have h1: "wf_store empty_store" by (rule wf_empty_store)
  have h2: "''T1'' \<noteq> []" "''H1'' \<noteq> []" "?es \<noteq> []" by simp_all
  have h3: "\<forall>e \<in> set ?es. task_id e = Some ''T1'' \<and> thought_id e = Some ''H1''"
    by (simp add: ex_done_def ex_unknown_def ex_start_def)
  have r: "stage_names (lookup_thought empty_store ''T1'' ''H1'') \<union>
             (set STAGE_NAMES \<inter> event_type ` set ?es) = {''action_result'', ''thought_start''}"
    by (auto simp: agg_defs)
  have p: "mset [ex_start, ex_done, ex_unknown] = mset ?es" by simp
  have q: "[ex_done] @ [ex_unknown, ex_start] = ?es" by simp
  note inst = stage_insertion_order_independent [OF h1 h2 h3]
  from inst have "\<exists>th. lookup_thought (processBatchedEvents empty_store ?es) ''T1'' ''H1'' = Some th \<and>
      fst ` set (stages th) = stage_names (lookup_thought empty_store ''T1'' ''H1'') \<union>
             (set STAGE_NAMES \<inter> event_type ` set ?es)"
    by (rule conjunct1)
  then have a: "\<exists>th. lookup_thought (processBatchedEvents empty_store ?es) ''T1'' ''H1'' = Some th \<and>
      fst ` set (stages th) = {''action_result'', ''thought_start''}"
    unfolding r .
  from inst p have b: "stage_names (lookup_thought (processBatchedEvents empty_store [ex_start, ex_done, ex_unknown]) ''T1'' ''H1'') =
      stage_names (lookup_thought (processBatchedEvents empty_store ?es) ''T1'' ''H1'')"
    by blast
  from inst q have c: "processBatchedEvents (processBatchedEvents empty_store [ex_done]) [ex_unknown, ex_start] =
      processBatchedEvents empty_store ?es"
    by blast
  from a b c show ?thesis by blast
qed

section \<open>Applying an event again\<close>



section \<open>The interaction id of a proxy request\<close>




section \<open>The setup redirect and its guard\<close>

lemmas auth_defs = checkNativeAuth_def login_with_defaults_def redirect_if_setup_needed_def redirect_guard_def
  checkSetupStatusFromAPI_def doSetupRedirect_def setItem_def removeItem_def js_or_def or_default_def
  ex_auth_state_def ex_auth_env_def parseInt_def is_space_def digit_val_def digit_char_def decimal.simps
  setup_page_mounted_def

lemma digit_cases:
  assumes "d < 10"
  shows "d = 0 \<or> d = 1 \<or> d = 2 \<or> d = 3 \<or> d = 4 \<or> d = 5 \<or> d = 6 \<or> d = 7 \<or> d = 8 \<or> d = (9::nat)"
  using assms by arith

lemma digit_val_digit_char: "d < 10 \<Longrightarrow> digit_val (digit_char d) = Some d"
  using digit_cases [of d] by (auto simp: digit_val_def digit_char_def Let_def)

lemma digit_char_plain:
  "d < 10 \<Longrightarrow> \<not> is_space (digit_char d) \<and> digit_char d \<noteq> CHR ''-'' \<and> digit_char d \<noteq> CHR ''+''"
  using digit_cases [of d] by (auto simp: is_space_def digit_char_def)

lemma digits_value_snoc:
  "\<forall>c \<in> set xs. digit_val c \<noteq> None \<Longrightarrow> d < 10 \<Longrightarrow>
   digits_value acc (xs @ [digit_char d]) = 10 * digits_value acc xs + d"
  by (induction xs arbitrary: acc) (auto simp: digit_val_digit_char)

lemma decimal_digits: "\<forall>c \<in> set (decimal n). digit_val c \<noteq> None"
proof (induction n rule: decimal.induct)
  case (1 n)
  show ?case
  proof (cases "n < 10")
    case True
    then show ?thesis by (simp add: decimal.simps [of n] digit_val_digit_char)
  next
    case False
    then show ?thesis using 1 by (simp add: decimal.simps [of n] digit_val_digit_char)
  qed
qed

lemma digits_value_decimal: "digits_value 0 (decimal n) = n"
proof (induction n rule: decimal.induct)
  case (1 n)
  show ?case
  proof (cases "n < 10")
    case True
    then show ?thesis by (simp add: decimal.simps [of n] digit_val_digit_char)
  next
    case False
    then have "digits_value 0 (decimal n) = 10 * digits_value 0 (decimal (n div 10)) + n mod 10"
      by (simp add: decimal.simps [of n] digits_value_snoc decimal_digits)
    then show ?thesis using 1 False by simp
  qed
qed

lemma decimal_head:
  "\<exists>d cs. d < 10 \<and> decimal n = digit_char d # cs"
proof (induction n rule: decimal.induct)
  case (1 n)
  show ?case
  proof (cases "n < 10")
    case True
    then show ?thesis by (auto simp: decimal.simps [of n])
  next
    case False
    with 1 obtain d cs where "d < 10" "decimal (n div 10) = digit_char d # cs" by auto
    then show ?thesis using False by (auto simp: decimal.simps [of n])
  qed
qed

lemma parseInt_decimal: "parseInt (decimal n) = Some (int n)"
proof -
  obtain d cs where d: "d < 10" "decimal n = digit_char d # cs"
    using decimal_head by blast
  have v: "digits_value 0 (digit_char d # cs) = n"
    using digits_value_decimal [of n] d(2) by simp
  show ?thesis
    using digit_char_plain [OF d(1)] digit_val_digit_char [OF d(1)] v
    unfolding parseInt_def d(2) by (simp del: digits_value.simps)
qed

lemma decimal_truthy: "truthy (Some (decimal n))"
  using decimal_head [of n] by auto

lemma redirect_guard_flag:
  "sessionStorage s ''ciris_redirect_in_progress'' = Some ''true'' \<Longrightarrow> redirect_guard now s"
  by (simp add: redirect_guard_def Let_def)

lemma redirect_guard_time:
  assumes "sessionStorage s ''ciris_last_redirect_time'' = Some (decimal t)"
    and "int now - int t < 5000"
  shows "redirect_guard now s"
  using assms decimal_truthy [of t]
  by (simp add: redirect_guard_def Let_def js_or_def parseInt_decimal)

lemma redirect_guard_time_iff:
  assumes "sessionStorage s ''ciris_last_redirect_time'' = Some (decimal t)"
    and "sessionStorage s ''ciris_redirect_in_progress'' \<noteq> Some ''true''"
  shows "redirect_guard now s \<longleftrightarrow> int now - int t < 5000"
  using assms decimal_truthy [of t]
  by (simp add: redirect_guard_def Let_def js_or_def parseInt_decimal)

lemma checkNativeAuth_guarded:
  "redirect_guard (env_now env) s \<Longrightarrow> checkNativeAuth env s = (True, s)"
  by (simp add: checkNativeAuth_def Let_def)

lemma checkSetupStatusFromAPI_trace:
  "nav_trace (snd (checkSetupStatusFromAPI env s)) = nav_trace s"
  by (simp add: checkSetupStatusFromAPI_def nav_trace_def Let_def split: setup_response.splits)

lemma redirect_if_setup_needed_trace:
  assumes "nav_trace s = tr"
  shows "quiet_or_redirected (env_redirect_now env) tr (redirect_if_setup_needed clears env am flag s)"
proof -
  obtain b s1 where c: "checkSetupStatusFromAPI env s = (b, s1)"
    by (cases "checkSetupStatusFromAPI env s")
  have q: "nav_trace s1 = tr"
    using checkSetupStatusFromAPI_trace [of env s] c assms by simp
  show ?thesis
    using q assms
    by (auto simp: redirect_if_setup_needed_def c quiet_or_redirected_def nav_trace_def
          doSetupRedirect_def setItem_def)
qed

lemma quiet_trace: "nav_trace s' = tr \<Longrightarrow> quiet_or_redirected t tr s'"
  by (simp add: quiet_or_redirected_def)

lemma login_with_defaults_trace:
  assumes "nav_trace s = tr"
  shows "quiet_or_redirected (env_redirect_now env) tr (snd (login_with_defaults env js am flag s))"
  unfolding login_with_defaults_def Let_def using assms
  by (auto split: option.splits
           intro!: redirect_if_setup_needed_trace
           simp: quiet_trace nav_trace_def)

lemma checkNativeAuth_trace:
  "quiet_or_redirected (env_redirect_now env) (nav_trace s) (snd (checkNativeAuth env s))"
  unfolding checkNativeAuth_def Let_def
  by (auto split: option.splits
           intro!: redirect_if_setup_needed_trace login_with_defaults_trace
           simp: quiet_trace nav_trace_def)

text \<open>
  Claim C4. A call of \<open>checkNativeAuth\<close> that finds the redirect flag set, or finds a
  stored redirect time less than 5000 ms before its clock, returns true and changes
  nothing: it assigns no address. \<open>doSetupRedirect\<close> assigns \<open>/setup\<close> once and leaves
  a state in which every later call is such a call; after the setup page has removed the
  flag, a call within 5000 ms of the stored time still is. For two calls in a row: a
  first call that navigates does so exactly once, and the second call returns true and
  adds no navigation, while the flag is set and, once the flag is removed, within the
  5000 ms.
\<close>

theorem setup_redirect_guard:
  "(sessionStorage s ''ciris_redirect_in_progress'' = Some ''true'' \<or>
    (sessionStorage s ''ciris_last_redirect_time'' = Some (decimal t) \<and>
     int (env_now env) - int t < 5000) \<longrightarrow>
      checkNativeAuth env s = (True, s)) \<and>
   navigations (doSetupRedirect t s) = navigations s @ [''/setup''] \<and>
   checkNativeAuth env (doSetupRedirect t s) = (True, doSetupRedirect t s) \<and>
   (int (env_now env) - int t < 5000 \<longrightarrow>
      checkNativeAuth env (setup_page_mounted (doSetupRedirect t s)) =
        (True, setup_page_mounted (doSetupRedirect t s))) \<and>
   (navigations (snd (checkNativeAuth env1 s)) \<noteq> navigations s \<longrightarrow>
      navigations (snd (checkNativeAuth env1 s)) = navigations s @ [''/setup''] \<and>
      checkNativeAuth env (snd (checkNativeAuth env1 s)) = (True, snd (checkNativeAuth env1 s)) \<and>
      (int (env_now env) - int (env_redirect_now env1) < 5000 \<longrightarrow>
         checkNativeAuth env (setup_page_mounted (snd (checkNativeAuth env1 s))) =
           (True, setup_page_mounted (snd (checkNativeAuth env1 s)))))"
proof (intro conjI impI)
  assume "sessionStorage s ''ciris_redirect_in_progress'' = Some ''true'' \<or>
    (sessionStorage s ''ciris_last_redirect_time'' = Some (decimal t) \<and>
     int (env_now env) - int t < 5000)"
  then have "redirect_guard (env_now env) s"
    using redirect_guard_flag redirect_guard_time by blast
  then show "checkNativeAuth env s = (True, s)" by (rule checkNativeAuth_guarded)
next
  show "navigations (doSetupRedirect t s) = navigations s @ [''/setup'']"
    by (simp add: doSetupRedirect_def)
next
  have "sessionStorage (doSetupRedirect t s) ''ciris_redirect_in_progress'' = Some ''true''"
    by (simp add: doSetupRedirect_def setItem_def)
  then have "redirect_guard (env_now env) (doSetupRedirect t s)" by (rule redirect_guard_flag)
  then show "checkNativeAuth env (doSetupRedirect t s) = (True, doSetupRedirect t s)"
    by (rule checkNativeAuth_guarded)
next
  assume w: "int (env_now env) - int t < 5000"
  have "sessionStorage (setup_page_mounted (doSetupRedirect t s)) ''ciris_last_redirect_time''
          = Some (decimal t)"
    by (simp add: doSetupRedirect_def setup_page_mounted_def setItem_def removeItem_def)
  then have "redirect_guard (env_now env) (setup_page_mounted (doSetupRedirect t s))"
    using w by (rule redirect_guard_time)
  then show "checkNativeAuth env (setup_page_mounted (doSetupRedirect t s)) =
        (True, setup_page_mounted (doSetupRedirect t s))"
    by (rule checkNativeAuth_guarded)
next
  let ?s1 = "snd (checkNativeAuth env1 s)"
  assume moved: "navigations ?s1 \<noteq> navigations s"
  from checkNativeAuth_trace [of env1 s] moved
  have r: "navigations ?s1 = navigations s @ [''/setup'']"
      "sessionStorage ?s1 ''ciris_redirect_in_progress'' = Some ''true''"
      "sessionStorage ?s1 ''ciris_last_redirect_time'' = Some (decimal (env_redirect_now env1))"
    by (auto simp: quiet_or_redirected_def nav_trace_def)
  show "navigations ?s1 = navigations s @ [''/setup'']" by (rule r(1))
  have "redirect_guard (env_now env) ?s1" using r(2) by (rule redirect_guard_flag)
  then show "checkNativeAuth env ?s1 = (True, ?s1)" by (rule checkNativeAuth_guarded)
  assume w: "int (env_now env) - int (env_redirect_now env1) < 5000"
  have "sessionStorage (setup_page_mounted ?s1) ''ciris_last_redirect_time''
          = Some (decimal (env_redirect_now env1))"
    using r(3) by (simp add: setup_page_mounted_def removeItem_def)
  then have "redirect_guard (env_now env) (setup_page_mounted ?s1)"
    using w by (rule redirect_guard_time)
  then show "checkNativeAuth env (setup_page_mounted ?s1) = (True, setup_page_mounted ?s1)"
    by (rule checkNativeAuth_guarded)
qed

theorem setup_redirect_guard_witness:
  "navigations (snd (checkNativeAuth (ex_auth_env 1700000000000) ex_auth_state)) = [''/setup''] \<and>
   checkNativeAuth (ex_auth_env 1700000003000)
       (snd (checkNativeAuth (ex_auth_env 1700000000000) ex_auth_state)) =
     (True, snd (checkNativeAuth (ex_auth_env 1700000000000) ex_auth_state)) \<and>
   checkNativeAuth (ex_auth_env 1700000003000)
       (setup_page_mounted (snd (checkNativeAuth (ex_auth_env 1700000000000) ex_auth_state))) =
     (True, setup_page_mounted (snd (checkNativeAuth (ex_auth_env 1700000000000) ex_auth_state)))"
proof -
  let ?e1 = "ex_auth_env 1700000000000"
  let ?e2 = "ex_auth_env 1700000003000"
  let ?s1 = "snd (checkNativeAuth ?e1 ex_auth_state)"
  have n0: "navigations ex_auth_state = []"
    by (simp add: ex_auth_state_def)
  have n1: "navigations ?s1 = [''/setup'']"
    by (simp add: auth_defs)
  have moved: "navigations ?s1 \<noteq> navigations ex_auth_state"
    unfolding n0 n1 by simp
  have w: "int (env_now ?e2) - int (env_redirect_now ?e1) < 5000"
    by (simp add: ex_auth_env_def)
  note inst = setup_redirect_guard [of ex_auth_state 0 ?e2 ?e1]
  from inst moved have a: "checkNativeAuth ?e2 ?s1 = (True, ?s1)"
    by blast
  from inst moved w have b: "checkNativeAuth ?e2 (setup_page_mounted ?s1) = (True, setup_page_mounted ?s1)"
    by blast
  from n1 a b show ?thesis by blast
qed

section \<open>The stream reader\<close>

lemmas reader_defs =
  decode_byte_def utf8_handler_def lead_byte_def reset_sequence_def new_decoder_def Let_def
  read_loop_def read_chunk_def feed_text_def handle_line_def record_call_def new_reader_def
  ex_stream_def ex_payload_def lit_def trim_def is_white_def

lemma decode_append:
  "decode d (a @ b) =
     (case decode d a of (d1, t1) \<Rightarrow> (case decode d1 b of (d2, t2) \<Rightarrow> (d2, t1 @ t2)))"
  by (induction a arbitrary: d) (auto split: prod.splits)

lemma split_nl_nonempty [simp]: "split_nl t \<noteq> []"
  by (induction t) (auto split: list.splits)

lemma split_nl_append:
  "split_nl (a @ b) = butlast (split_nl a) @ split_nl (last (split_nl a) @ b)"
proof (induction a)
  case Nil
  show ?case by simp
next
  case (Cons c a)
  show ?case
  proof (cases "c = 10")
    case True
    then show ?thesis using Cons by simp
  next
    case False
    obtain l ls where S: "split_nl a = l # ls" by (cases "split_nl a") auto
    show ?thesis
    proof (cases ls)
      case Nil
      then show ?thesis using False Cons S by simp
    next
      case (Cons l' ls')
      then show ?thesis using False Cons.IH S by simp
    qed
  qed
qed

lemma split_nl_plain: "10 \<notin> set t \<Longrightarrow> split_nl t = [t]"
  by (induction t) auto

lemma last_split_nl_plain: "10 \<notin> set (last (split_nl t))"
  by (induction t) (auto split: list.splits)

lemma handle_line_buffer [simp]: "buffer (handle_line p r l) = buffer r"
  by (simp add: handle_line_def Let_def)

lemma handle_line_dec [simp]: "dec (handle_line p r l) = dec r"
  by (simp add: handle_line_def Let_def)

lemma handle_line_buffer_update:
  "handle_line p (r\<lparr>buffer := b\<rparr>) l = (handle_line p r l)\<lparr>buffer := b\<rparr>"
  by (simp add: handle_line_def Let_def)

lemma foldl_handle_line_buffer_update:
  "foldl (handle_line p) (r\<lparr>buffer := b\<rparr>) ls = (foldl (handle_line p) r ls)\<lparr>buffer := b\<rparr>"
  by (induction ls arbitrary: r) (simp_all add: handle_line_buffer_update)

lemma foldl_handle_line_buffer [simp]: "buffer (foldl (handle_line p) r ls) = buffer r"
  by (induction ls arbitrary: r) simp_all

lemma foldl_handle_line_dec [simp]: "dec (foldl (handle_line p) r ls) = dec r"
  by (induction ls arbitrary: r) simp_all

lemma feed_text_buffer: "buffer (feed_text p r t) = last (split_nl (buffer r @ t))"
  by (simp add: feed_text_def Let_def)

lemma feed_text_dec [simp]: "dec (feed_text p r t) = dec r"
  by (simp add: feed_text_def Let_def)

lemma feed_text_append: "feed_text p (feed_text p r t1) t2 = feed_text p r (t1 @ t2)"
proof -
  let ?L1 = "split_nl (buffer r @ t1)"
  let ?L2 = "split_nl (last ?L1 @ t2)"
  have L: "split_nl (buffer r @ t1 @ t2) = butlast ?L1 @ ?L2"
    using split_nl_append [of "buffer r @ t1" t2] by simp
  have bl: "butlast (butlast ?L1 @ ?L2) = butlast ?L1 @ butlast ?L2"
    by (simp add: butlast_append)
  have la: "last (butlast ?L1 @ ?L2) = last ?L2"
    by simp
  show ?thesis
    unfolding feed_text_def Let_def
    by (simp add: L bl la foldl_handle_line_buffer_update)
qed

lemma handle_line_dec_update:
  "handle_line p (r\<lparr>dec := d\<rparr>) l = (handle_line p r l)\<lparr>dec := d\<rparr>"
  by (simp add: handle_line_def Let_def)

lemma foldl_handle_line_dec_update:
  "foldl (handle_line p) (r\<lparr>dec := d\<rparr>) ls = (foldl (handle_line p) r ls)\<lparr>dec := d\<rparr>"
  by (induction ls arbitrary: r) (simp_all add: handle_line_dec_update)

lemma feed_text_dec_update: "feed_text p (r\<lparr>dec := d\<rparr>) t = (feed_text p r t)\<lparr>dec := d\<rparr>"
  by (simp add: feed_text_def Let_def foldl_handle_line_dec_update
        foldl_handle_line_buffer_update)

lemma feed_text_nothing: "10 \<notin> set (buffer r) \<Longrightarrow> feed_text p r [] = r"
  by (simp add: feed_text_def Let_def split_nl_plain)

lemma read_chunk_append: "read_chunk p (read_chunk p r a) b = read_chunk p r (a @ b)"
proof -
  obtain d1 t1 where a: "decode (dec r) a = (d1, t1)" by (cases "decode (dec r) a")
  obtain d2 t2 where b: "decode d1 b = (d2, t2)" by (cases "decode d1 b")
  have ab: "decode (dec r) (a @ b) = (d2, t1 @ t2)"
    by (simp add: decode_append a b)
  have "read_chunk p (read_chunk p r a) b = (feed_text p (feed_text p r t1) t2)\<lparr>dec := d2\<rparr>"
    by (simp add: read_chunk_def a b feed_text_dec_update)
  also have "\<dots> = read_chunk p r (a @ b)"
    by (simp add: read_chunk_def ab feed_text_dec_update feed_text_append)
  finally show ?thesis .
qed

lemma read_chunk_buffer: "10 \<notin> set (buffer (read_chunk p r a))"
  by (auto simp: read_chunk_def feed_text_buffer last_split_nl_plain split: prod.splits)

lemma read_chunk_nothing: "10 \<notin> set (buffer r) \<Longrightarrow> read_chunk p r [] = r"
  by (simp add: read_chunk_def feed_text_nothing)

lemma read_loop_concat:
  "10 \<notin> set (buffer r) \<Longrightarrow> read_loop p r chunks = read_chunk p r (concat chunks)"
proof (induction chunks arbitrary: r)
  case Nil
  then show ?case by (simp add: read_loop_def read_chunk_nothing)
next
  case (Cons c cs)
  have "read_loop p r (c # cs) = read_loop p (read_chunk p r c) cs"
    by (simp add: read_loop_def)
  also have "\<dots> = read_chunk p (read_chunk p r c) (concat cs)"
    by (rule Cons.IH) (rule read_chunk_buffer)
  also have "\<dots> = read_chunk p r (concat (c # cs))"
    by (simp add: read_chunk_append)
  finally show ?case .
qed

lemma ex_stream_read:
  "read_chunk record_call (new_reader []) ex_stream =
     \<lparr>dec = new_decoder\<lparr>bom_seen := True\<rparr>, buffer = [], eventType = [], eventData = [],
      sink = [(lit ''step_update'', lit ex_payload)]\<rparr>"
  by (simp add: reader_defs)

text \<open>
  A cut inside a character: the three bytes of U+20AC arrive in two reads, and the
  buffer ends up holding the one code point, as it does after a single read.
\<close>

lemma read_loop_split_character:
  "read_loop record_call (new_reader []) [[CHR 0xE2, CHR 0x82], [CHR 0xAC]] =
     read_chunk record_call (new_reader []) [CHR 0xE2, CHR 0x82, CHR 0xAC] \<and>
   buffer (read_loop record_call (new_reader []) [[CHR 0xE2, CHR 0x82], [CHR 0xAC]]) = [8364]"
  by (simp add: reader_defs)

text \<open>
  Claim C3. However a stream is cut into chunks, the read loop ends in the state that one
  read of the whole stream gives: the decoder keeps an unfinished character and the
  buffer an unfinished line from one read to the next. For the bytes
  \<open>event: step_update\<close>, line feed, \<open>data: {"a":1}\<close>, line feed, line feed, cut in
  any way, \<open>processSSEEvent\<close> is called exactly once, with the type \<open>step_update\<close> and
  the data \<open>{"a":1}\<close>, and nothing is left pending.
\<close>

theorem stream_framing_chunking_invariant:
  "read_loop p (new_reader q) chunks = read_chunk p (new_reader q) (concat chunks) \<and>
   (concat chunks = ex_stream \<longrightarrow>
      sink (read_loop record_call (new_reader []) chunks) = [(lit ''step_update'', lit ex_payload)] \<and>
      eventType (read_loop record_call (new_reader []) chunks) = [] \<and>
      eventData (read_loop record_call (new_reader []) chunks) = [] \<and>
      buffer (read_loop record_call (new_reader []) chunks) = [])"
proof (intro conjI impI)
  have nb: "\<And>q'. 10 \<notin> set (buffer (new_reader q'))" by (simp add: new_reader_def)
  show "read_loop p (new_reader q) chunks = read_chunk p (new_reader q) (concat chunks)"
    using nb by (rule read_loop_concat)
  assume c: "concat chunks = ex_stream"
  have r: "read_loop record_call (new_reader []) chunks =
        \<lparr>dec = new_decoder\<lparr>bom_seen := True\<rparr>, buffer = [], eventType = [], eventData = [],
         sink = [(lit ''step_update'', lit ex_payload)]\<rparr>"
    using read_loop_concat [OF nb, of record_call "[]" chunks] c ex_stream_read by simp
  show "sink (read_loop record_call (new_reader []) chunks) = [(lit ''step_update'', lit ex_payload)]"
    by (simp add: r)
  show "eventType (read_loop record_call (new_reader []) chunks) = []" by (simp add: r)
  show "eventData (read_loop record_call (new_reader []) chunks) = []" by (simp add: r)
  show "buffer (read_loop record_call (new_reader []) chunks) = []" by (simp add: r)
qed

theorem stream_framing_chunking_invariant_witness:
  "sink (read_loop record_call (new_reader [])
           [''eve'', ''nt: step_upd'', ''ate'' @ [CHR 0x0A] @ ''da'',
            ''ta: {'' @ [CHR 0x22] @ ''a'', [CHR 0x22] @ '':1}'' @ [CHR 0x0A], [CHR 0x0A]])
     = [(lit ''step_update'', lit ex_payload)]"
proof -
  let ?chunks = "[''eve'', ''nt: step_upd'', ''ate'' @ [CHR 0x0A] @ ''da'',
            ''ta: {'' @ [CHR 0x22] @ ''a'', [CHR 0x22] @ '':1}'' @ [CHR 0x0A], [CHR 0x0A]]"
  have c: "concat ?chunks = ex_stream"
    by (simp add: ex_stream_def ex_payload_def)
  from stream_framing_chunking_invariant [of record_call "[]" ?chunks] c
  show ?thesis by blast
qed

section \<open>Malformed records\<close>

lemmas sse_defs =
  processSSEEvent_def processSSEEvent_run_def processSSEEvent_try_def make_queued_def
  simple_handle_line_def ex_parse_def ex_good_json_def ex_bad_then_good_def

lemma handle_line_framing:
  "framing r = framing r' \<Longrightarrow> framing (handle_line p r l) = framing (handle_line p' r' l)"
  by (auto simp: framing_def handle_line_def Let_def)

lemma foldl_handle_line_framing:
  "framing r = framing r' \<Longrightarrow>
   framing (foldl (handle_line p) r ls) = framing (foldl (handle_line p') r' ls)"
proof (induction ls arbitrary: r r')
  case Nil
  then show ?case by simp
next
  case (Cons l ls)
  have "framing (handle_line p r l) = framing (handle_line p' r' l)"
    using Cons.prems by (rule handle_line_framing)
  then show ?case using Cons.IH by simp
qed

lemma read_chunk_framing:
  assumes "framing r = framing r'"
  shows "framing (read_chunk p r c) = framing (read_chunk p' r' c)"
proof -
  obtain d t where dt: "decode (dec r) c = (d, t)" by (cases "decode (dec r) c")
  have same: "dec r' = dec r" "buffer r' = buffer r"
    using assms by (simp_all add: framing_def)
  let ?b = "last (split_nl (buffer r @ t))"
  have "framing (r\<lparr>dec := d, buffer := ?b\<rparr>) = framing (r'\<lparr>dec := d, buffer := ?b\<rparr>)"
    using assms by (simp add: framing_def)
  then show ?thesis
    by (simp add: read_chunk_def feed_text_def Let_def dt same foldl_handle_line_framing)
qed

lemma read_loop_framing:
  "framing r = framing r' \<Longrightarrow> framing (read_loop p r cs) = framing (read_loop p' r' cs)"
proof (induction cs arbitrary: r r')
  case Nil
  then show ?case by (simp add: read_loop_def)
next
  case (Cons c cs)
  have "framing (read_chunk p r c) = framing (read_chunk p' r' c)"
    using Cons.prems by (rule read_chunk_framing)
  from Cons.IH [OF this] show ?case by (simp add: read_loop_def)
qed

text \<open>
  Claim C8. When the data of a record does not parse, the \<open>try\<close> block of
  \<open>processSSEEvent\<close> throws with the queue as it was, the function returns with no error
  for its caller, and the queue is unchanged. At the blank line that ends such a record
  the reader clears the pending type and data and leaves the queue alone. Whatever the
  parser answers, the reader cuts the stream exactly as a reader that only records its
  calls does, so the records that follow are read as usual. The simplified page keeps
  its list of events unchanged on a data line that does not parse.
\<close>

theorem malformed_record_dropped:
  assumes "parse dat = Inl err"
  shows "processSSEEvent_try parse now q dat = (q, Some err) \<and>
         processSSEEvent_run parse now q ty dat = (q, None) \<and>
         processSSEEvent parse now q ty dat = q \<and>
         (eventType r \<noteq> [] \<and> eventData r = dat \<and> dat \<noteq> [] \<longrightarrow>
            handle_line (processSSEEvent parse now) r [] = r\<lparr>eventType := [], eventData := []\<rparr>) \<and>
         framing (read_loop (processSSEEvent parse now) (new_reader q) chunks) =
           framing (read_loop record_call (new_reader []) chunks) \<and>
         (\<forall>line. trim (drop 5 line) = dat \<longrightarrow>
            simple_handle_line parse now sseEvents line = sseEvents)"
proof -
  have f: "framing (read_loop (processSSEEvent parse now) (new_reader q) chunks) =
           framing (read_loop record_call (new_reader []) chunks)"
    by (rule read_loop_framing) (simp add: framing_def new_reader_def)
  show ?thesis
    using assms f
    by (auto simp: processSSEEvent_try_def processSSEEvent_run_def processSSEEvent_def
          handle_line_def simple_handle_line_def lit_def)
qed

theorem malformed_record_dropped_witness:
  "processSSEEvent_try ex_parse (lit ''now'') [] (lit ''{oops'') = ([], Some SyntaxError) \<and>
   processSSEEvent_run ex_parse (lit ''now'') [] (lit ''step_update'') (lit ''{oops'') = ([], None) \<and>
   sink (read_loop (processSSEEvent ex_parse (lit ''now'')) (new_reader []) ex_bad_then_good) =
     [\<lparr>q_event_type = Some (JStr (lit ''thought_start'')),
       q_thought_id = Some (JStr (lit ''H1'')),
       q_task_id = Some (JStr (lit ''T1'')),
       q_data = JObj [(lit ''event_type'', JStr (lit ''thought_start'')),
                      (lit ''thought_id'', JStr (lit ''H1'')),
                      (lit ''task_id'', JStr (lit ''T1''))],
       q_timestamp = JStr (lit ''now'')\<rparr>]"
proof -
  have h: "ex_parse (lit ''{oops'') = Inl SyntaxError"
    by (simp add: ex_parse_def lit_def)
  note inst = malformed_record_dropped
    [where parse = ex_parse and dat = "lit ''{oops''" and err = SyntaxError and
           now = "lit ''now''" and q = "[]" and ty = "lit ''step_update''", OF h]
  from inst have a: "processSSEEvent_try ex_parse (lit ''now'') [] (lit ''{oops'') = ([], Some SyntaxError)"
    by blast
  from inst have b: "processSSEEvent_run ex_parse (lit ''now'') [] (lit ''step_update'') (lit ''{oops'') = ([], None)"
    by blast
  have c: "sink (read_loop (processSSEEvent ex_parse (lit ''now'')) (new_reader []) ex_bad_then_good) =
     [\<lparr>q_event_type = Some (JStr (lit ''thought_start'')),
       q_thought_id = Some (JStr (lit ''H1'')),
       q_task_id = Some (JStr (lit ''T1'')),
       q_data = JObj [(lit ''event_type'', JStr (lit ''thought_start'')),
                      (lit ''thought_id'', JStr (lit ''H1'')),
                      (lit ''task_id'', JStr (lit ''T1''))],
       q_timestamp = JStr (lit ''now'')\<rparr>]"
    by (simp add: reader_defs sse_defs)
  from a b c show ?thesis by blast
qed

end
